theory Spec2Isabelle
  imports Main "HOL-Library.Finite_Map"
begin

section \<open>Data model of \<^verbatim>\<open>backend/main.go\<close>\<close>

text \<open>
  The Go structs become records. Field names carry a one-letter prefix of their struct
  (\<open>a_\<close> Agent, \<open>q_\<close> QueueItem, \<open>r_\<close> CommandResult), because several structs share
  field names. Go's \<^verbatim>\<open>int\<close> is rendered as \<open>int\<close>: the only arithmetic on these fields
  is \<^verbatim>\<open>len(queue) + i\<close>, \<^verbatim>\<open>id++\<close> (bounded by the number of agents) and the two task
  counters (one step per command executed), none of which can leave the 64-bit range in
  a run that a machine can carry out; priorities are only compared. Times are instants in
  nanoseconds. The three floating-point gauges of \<^verbatim>\<open>Agent\<close> (memory, CPU, network) are
  not modelled.
\<close>

record Agent =
  a_ID :: int
  a_Name :: string
  a_Status :: string
  a_CurrentTask :: string
  a_StartTime :: nat
  a_LastExecute :: nat
  a_TasksDone :: int
  a_TasksFailed :: int

record QueueItem =
  q_ID :: int
  q_Index :: int
  q_Command :: string
  q_Status :: string
  q_Output :: string
  q_AgentID :: int
  q_Priority :: int
  q_BatchID :: string
  q_CreatedAt :: string

record CommandResult =
  r_AgentID :: int
  r_Command :: string
  r_Output :: string
  r_Error :: string
  r_ExitCode :: int
  r_Duration :: int
  r_Timestamp :: string

text \<open>
  What \<^verbatim>\<open>cmd.CombinedOutput()\<close> hands back: the captured bytes and an error that is
  either an \<^verbatim>\<open>*exec.ExitError\<close> (with its exit code and text) or any other error (the
  process could not be launched). \<open>p_millis\<close> is the wall-clock time the call took.
\<close>

datatype proc_error = ExitError int string | LaunchError string

record proc_outcome =
  p_output :: string
  p_err :: "proc_error option"
  p_millis :: int

text \<open>
  The world outside the manager, read by one call: the clock (\<^verbatim>\<open>time.Now()\<close>, also
  as RFC 3339 text), the platform shell (\<^verbatim>\<open>sh -c\<close> or \<^verbatim>\<open>cmd /C\<close>, chosen by
  \<^verbatim>\<open>runtime.GOOS\<close>) as a function from the command line to its outcome, and the row id
  that \<^verbatim>\<open>saveQueueItemToDB\<close> returns (0 when there is no database or the insert fails).
  Broadcasts to WebSocket clients, log rows and the log file are writes to that outside
  world which the manager never reads back; they are left out.
\<close>

record env =
  now :: nat
  now_text :: string
  shell :: "string \<Rightarrow> proc_outcome"
  saveQueueItemToDB :: "QueueItem \<Rightarrow> int"

text \<open>
  \<^verbatim>\<open>agents map[int]*Agent\<close> maps ids to pointers, so the Agent objects live in an explicit
  store: \<open>heap\<close> from addresses to objects, with \<open>next_ref\<close> the next address that
  \<^verbatim>\<open>&Agent{...}\<close> allocates. \<open>queue\<close> is the sequence of values held by the slice
  \<^verbatim>\<open>[]QueueItem\<close>. \<open>spawned\<close> is not a field of the Go struct: it records, oldest first,
  every command line handed to the shell, so that "no subprocess is spawned" can be stated.
\<close>

type_synonym ref = nat

record AgentManager =
  agents :: "(int, ref) fmap"
  heap :: "ref \<Rightarrow> Agent"
  next_ref :: ref
  queue :: "QueueItem list"
  maxAgents :: int
  running :: bool
  terminated :: bool
  spawned :: "string list"

text \<open>\<^verbatim>\<open>NewAgentManager\<close> with no database configured: nothing is loaded.\<close>

definition NewAgentManager :: AgentManager where
  "NewAgentManager =
     \<lparr>agents = fmempty,
      heap = (\<lambda>_. \<lparr>a_ID = 0, a_Name = '''', a_Status = '''', a_CurrentTask = '''',
                    a_StartTime = 0, a_LastExecute = 0, a_TasksDone = 0, a_TasksFailed = 0\<rparr>),
      next_ref = 0,
      queue = [],
      maxAgents = 10,
      running = True,
      terminated = False,
      spawned = []\<rparr>"

section \<open>Library functions the code calls\<close>

text \<open>\<^verbatim>\<open>strings.HasPrefix\<close> and \<^verbatim>\<open>strings.TrimPrefix\<close> on byte strings.\<close>

definition HasPrefix :: "string \<Rightarrow> string \<Rightarrow> bool" where
  "HasPrefix s p = (length p \<le> length s \<and> take (length p) s = p)"

definition TrimPrefix :: "string \<Rightarrow> string \<Rightarrow> string" where
  "TrimPrefix s p = (if HasPrefix s p then drop (length p) s else s)"

text \<open>\<^verbatim>\<open>fmt.Sprintf("%d", i)\<close> for \<open>i \<ge> 0\<close>: decimal digits, no sign, no leading zero.\<close>

definition digit :: "nat \<Rightarrow> char" where
  "digit d =
     (if d = 0 then CHR ''0'' else if d = 1 then CHR ''1'' else if d = 2 then CHR ''2''
      else if d = 3 then CHR ''3'' else if d = 4 then CHR ''4'' else if d = 5 then CHR ''5''
      else if d = 6 then CHR ''6'' else if d = 7 then CHR ''7'' else if d = 8 then CHR ''8''
      else CHR ''9'')"

fun decimal :: "nat \<Rightarrow> string" where
  "decimal n = (if n < 10 then [digit n] else decimal (n div 10) @ [digit (n mod 10)])"

declare decimal.simps [simp del]

text \<open>Position of the first element a \<^verbatim>\<open>for i, item := range\<close> loop stops at.\<close>

fun first_index :: "('a \<Rightarrow> bool) \<Rightarrow> 'a list \<Rightarrow> nat option" where
  "first_index P [] = None"
| "first_index P (x # xs) = (if P x then Some 0 else map_option Suc (first_index P xs))"

section \<open>Agent registry\<close>

text \<open>
  \<^verbatim>\<open>id := 1; for { if _, exists := am.agents[id]; !exists { break }; id++ }\<close>.
  The map is finite, so the search ends.
\<close>

function find_free_id :: "(int, 'a) fmap \<Rightarrow> int \<Rightarrow> int" where
  "find_free_id m i = (if i |\<in>| fmdom m then find_free_id m (i + 1) else i)"
  by pat_completeness auto
termination
proof (relation "measure (\<lambda>(m, i). card {k \<in> fmdom' m. i \<le> k})")
  show "wf (measure (\<lambda>(m, i). card {k \<in> fmdom' m. i \<le> k}))" by simp
next
  fix m :: "(int, 'a) fmap" and i :: int
  assume "i |\<in>| fmdom m"
  then have "i \<in> fmdom' m" by (simp add: fmdom'_alt_def)
  then have "i \<in> {k \<in> fmdom' m. i \<le> k}" "i \<notin> {k \<in> fmdom' m. i + 1 \<le> k}" by auto
  moreover have "{k \<in> fmdom' m. i + 1 \<le> k} \<subseteq> {k \<in> fmdom' m. i \<le> k}" by auto
  ultimately have "{k \<in> fmdom' m. i + 1 \<le> k} \<subset> {k \<in> fmdom' m. i \<le> k}" by blast
  moreover have "finite {k \<in> fmdom' m. i \<le> k}" by simp
  ultimately show "((m, i + 1), (m, i)) \<in> measure (\<lambda>(m, i). card {k \<in> fmdom' m. i \<le> k})"
    by (simp add: psubset_card_mono)
qed

declare find_free_id.simps [simp del]

definition agent_count :: "AgentManager \<Rightarrow> nat" where
  "agent_count s = fcard (fmdom (agents s))"

text \<open>\<^verbatim>\<open>AddAgent\<close>: \<open>None\<close> is the \<^verbatim>\<open>nil\<close> it returns at capacity.\<close>

definition AddAgent :: "env \<Rightarrow> string \<Rightarrow> AgentManager \<Rightarrow> ref option \<times> AgentManager" where
  "AddAgent e name s =
     (if maxAgents s \<le> int (agent_count s) then (None, s)
      else
        let aid = find_free_id (agents s) 1;
            agent = \<lparr>a_ID = aid, a_Name = name, a_Status = ''idle'', a_CurrentTask = '''',
                     a_StartTime = now e, a_LastExecute = now e,
                     a_TasksDone = 0, a_TasksFailed = 0\<rparr>;
            p = next_ref s
        in (Some p, s\<lparr>agents := fmupd aid p (agents s),
                      heap := (heap s)(p := agent),
                      next_ref := Suc p\<rparr>))"

definition RemoveAgent :: "int \<Rightarrow> AgentManager \<Rightarrow> bool \<times> AgentManager" where
  "RemoveAgent aid s =
     (case fmlookup (agents s) aid of
        Some p \<Rightarrow> (True, s\<lparr>agents := fmdrop aid (agents s)\<rparr>)
      | None \<Rightarrow> (False, s))"

text \<open>
  \<^verbatim>\<open>GetAgents\<close> builds a new slice and appends each pointer of the map. Go leaves the
  iteration order of a map unspecified, so the order in which the keys are visited is an
  argument.
\<close>

definition GetAgents :: "int list \<Rightarrow> AgentManager \<Rightarrow> ref list" where
  "GetAgents visit s = List.map_filter (fmlookup (agents s)) visit"

section \<open>Task queue\<close>

text \<open>
  \<^verbatim>\<open>AddToQueue\<close>: the loop \<^verbatim>\<open>for i := 1; i <= len(commands); i++\<close> looks the key
  \<^verbatim>\<open>Sprintf("%d", i)\<close> up and appends an item when it is there. \<open>enqueue_slot\<close> is one
  pass of the loop body and \<open>slot_item\<close> the item it builds and saves.
\<close>

definition slot_item :: "env \<Rightarrow> string \<Rightarrow> nat \<Rightarrow> nat \<Rightarrow> string \<Rightarrow> QueueItem" where
  "slot_item e batchID baseIndex i cmd =
     (let item = \<lparr>q_ID = 0, q_Index = int baseIndex + int i, q_Command = cmd,
                   q_Status = ''pending'', q_Output = '''', q_AgentID = 0, q_Priority = 0,
                   q_BatchID = batchID, q_CreatedAt = ''''\<rparr>
      in item\<lparr>q_ID := saveQueueItemToDB e item\<rparr>)"

definition enqueue_slot ::
  "env \<Rightarrow> (string, string) fmap \<Rightarrow> string \<Rightarrow> nat \<Rightarrow> QueueItem list \<Rightarrow> nat \<Rightarrow> QueueItem list" where
  "enqueue_slot e commands batchID baseIndex q i =
     (case fmlookup commands (decimal i) of
        Some cmd \<Rightarrow> q @ [slot_item e batchID baseIndex i cmd]
      | None \<Rightarrow> q)"

definition AddToQueue :: "env \<Rightarrow> (string, string) fmap \<Rightarrow> AgentManager \<Rightarrow> AgentManager" where
  "AddToQueue e commands s =
     (let batchID = ''batch_'' @ decimal (now e);
          baseIndex = length (queue s)
      in s\<lparr>queue := foldl (enqueue_slot e commands batchID baseIndex) (queue s)
                        [1..<Suc (fcard (fmdom commands))]\<rparr>)"

definition AddToQueueWithPriority :: "env \<Rightarrow> string \<Rightarrow> int \<Rightarrow> AgentManager \<Rightarrow> AgentManager" where
  "AddToQueueWithPriority e command priority s =
     (let item = \<lparr>q_ID = 0, q_Index = int (length (queue s)) + 1, q_Command = command,
                   q_Status = ''pending'', q_Output = '''', q_AgentID = 0, q_Priority = priority,
                   q_BatchID = '''', q_CreatedAt = ''''\<rparr>
      in s\<lparr>queue := queue s @ [item\<lparr>q_ID := saveQueueItemToDB e item\<rparr>]\<rparr>)"

text \<open>\<^verbatim>\<open>RemoveFromQueue\<close>: \<^verbatim>\<open>append(am.queue[:i], am.queue[i+1:]...)\<close> at the first match.\<close>

definition RemoveFromQueue :: "int \<Rightarrow> AgentManager \<Rightarrow> bool \<times> AgentManager" where
  "RemoveFromQueue index s =
     (case first_index (\<lambda>item. q_Index item = index) (queue s) of
        Some i \<Rightarrow> (True, s\<lparr>queue := take i (queue s) @ drop (Suc i) (queue s)\<rparr>)
      | None \<Rightarrow> (False, s))"

text \<open>
  The scan of \<^verbatim>\<open>GetNextQueueItem\<close>: \<open>i\<close> is the position reached, \<open>bestIdx\<close> the position
  kept so far (\<open>None\<close> while \<^verbatim>\<open>bestItem\<close> is \<^verbatim>\<open>nil\<close>), \<open>bestPriority\<close> the priority to beat.
  The source starts it with \<^verbatim>\<open>bestPriority := -1\<close>.
\<close>

fun scan_queue :: "QueueItem list \<Rightarrow> nat \<Rightarrow> nat option \<Rightarrow> int \<Rightarrow> nat option" where
  "scan_queue [] i bestIdx bestPriority = bestIdx"
| "scan_queue (item # rest) i bestIdx bestPriority =
     (if q_Status item = ''pending'' \<and> bestPriority < q_Priority item
      then scan_queue rest (Suc i) (Some i) (q_Priority item)
      else scan_queue rest (Suc i) bestIdx bestPriority)"

text \<open>
  \<^verbatim>\<open>GetNextQueueItem\<close> returns \<^verbatim>\<open>&am.queue[bestIdx]\<close>: the position stands for the
  pointer, and the item it points to is \<open>queue s' ! i\<close> in the state returned.
\<close>

definition GetNextQueueItem :: "AgentManager \<Rightarrow> nat option \<times> AgentManager" where
  "GetNextQueueItem s =
     (case scan_queue (queue s) 0 None (- 1) of
        Some i \<Rightarrow> (Some i, s\<lparr>queue := (queue s)[i := (queue s ! i)\<lparr>q_Status := ''running''\<rparr>]\<rparr>)
      | None \<Rightarrow> (None, s))"

definition CompleteQueueItem :: "int \<Rightarrow> string \<Rightarrow> bool \<Rightarrow> AgentManager \<Rightarrow> AgentManager" where
  "CompleteQueueItem index output success s =
     (case first_index (\<lambda>item. q_Index item = index) (queue s) of
        Some i \<Rightarrow>
          s\<lparr>queue := (queue s)[i := (queue s ! i)
                         \<lparr>q_Status := (if success then ''completed'' else ''failed''),
                          q_Output := output\<rparr>]\<rparr>
      | None \<Rightarrow> s)"

section \<open>Command execution\<close>

definition validateCommand :: "string \<Rightarrow> string \<times> bool" where
  "validateCommand command =
     (if HasPrefix command ''RUN '' then (TrimPrefix command ''RUN '', True) else ('''', False))"

text \<open>
  The three places where \<^verbatim>\<open>ExecuteCommand\<close> touches the agent or the outside world:
  the block under the first lock (only when the id is in the map), the subprocess with the
  reading of its error, and the block under the second lock, which writes through the
  pointer fetched at the start.
\<close>

definition mark_running :: "env \<Rightarrow> ref option \<Rightarrow> string \<Rightarrow> AgentManager \<Rightarrow> AgentManager" where
  "mark_running e found command s =
     (case found of
        Some p \<Rightarrow> s\<lparr>heap := (heap s)(p := (heap s p)\<lparr>a_Status := ''running'',
                                                    a_CurrentTask := command,
                                                    a_LastExecute := now e\<rparr>)\<rparr>
      | None \<Rightarrow> s)"

definition read_outcome :: "proc_outcome \<Rightarrow> CommandResult \<Rightarrow> CommandResult" where
  "read_outcome out result =
     (let result1 = result\<lparr>r_Output := p_output out, r_Duration := p_millis out\<rparr>
      in case p_err out of
           None \<Rightarrow> result1
         | Some (ExitError code msg) \<Rightarrow> result1\<lparr>r_Error := msg, r_ExitCode := code\<rparr>
         | Some (LaunchError msg) \<Rightarrow> result1\<lparr>r_Error := msg, r_ExitCode := 1\<rparr>)"

definition mark_idle :: "ref option \<Rightarrow> CommandResult \<Rightarrow> AgentManager \<Rightarrow> AgentManager" where
  "mark_idle found result s =
     (case found of
        Some p \<Rightarrow>
          (let agent = (heap s p)\<lparr>a_Status := ''idle'', a_CurrentTask := ''''\<rparr>;
               agent' = (if r_ExitCode result = 0
                         then agent\<lparr>a_TasksDone := a_TasksDone agent + 1\<rparr>
                         else agent\<lparr>a_TasksFailed := a_TasksFailed agent + 1\<rparr>)
           in s\<lparr>heap := (heap s)(p := agent')\<rparr>)
      | None \<Rightarrow> s)"

text \<open>
  Lines 730 to 789: spawn the shell on \<open>actualCommand\<close>, read its outcome into the
  result, settle the agent.
\<close>

definition spawn_and_settle ::
  "env \<Rightarrow> ref option \<Rightarrow> string \<Rightarrow> CommandResult \<Rightarrow> AgentManager \<Rightarrow> CommandResult \<times> AgentManager" where
  "spawn_and_settle e found actualCommand result s =
     (let s' = s\<lparr>spawned := spawned s @ [actualCommand]\<rparr>;
          result' = read_outcome (shell e actualCommand) result
      in (result', mark_idle found result' s'))"

definition ExecuteCommand ::
  "env \<Rightarrow> int \<Rightarrow> string \<Rightarrow> AgentManager \<Rightarrow> CommandResult \<times> AgentManager" where
  "ExecuteCommand e agentID command s =
     (if terminated s then
        (\<lparr>r_AgentID = agentID, r_Command = command, r_Output = '''',
          r_Error = ''System terminated by <END!> signal'', r_ExitCode = 0, r_Duration = 0,
          r_Timestamp = ''''\<rparr>, s)
      else
        let found = fmlookup (agents s) agentID;
            s1 = mark_running e found command s;
            result = \<lparr>r_AgentID = agentID, r_Command = command, r_Output = '''',
                      r_Error = '''', r_ExitCode = 0, r_Duration = 0,
                      r_Timestamp = now_text e\<rparr>;
            (actualCommand, valid) = validateCommand command
        in if \<not> valid then
             (if \<not> HasPrefix command ''RUN '' then
                spawn_and_settle e found command result s1
              else
                (result\<lparr>r_Error := ''Invalid command format. Use: RUN <command>'',
                        r_ExitCode := 1\<rparr>, s1))
           else spawn_and_settle e found actualCommand result s1)"

section \<open>Termination and the per-agent loop\<close>

definition GracefulTerminate :: "string \<Rightarrow> AgentManager \<Rightarrow> AgentManager" where
  "GracefulTerminate signal s =
     (if signal = ''<END!>'' then s\<lparr>terminated := True, running := False\<rparr> else s)"

text \<open>
  One pass of the body of the loop in \<^verbatim>\<open>StartAgentLoop\<close>: claim, stamp the agent id
  through the pointer, execute, complete. The sleeps are not modelled.
\<close>

definition loop_body :: "env \<Rightarrow> int \<Rightarrow> AgentManager \<Rightarrow> AgentManager" where
  "loop_body e agentID s =
     (case GetNextQueueItem s of
        (Some i, s1) \<Rightarrow>
          (let s2 = s1\<lparr>queue := (queue s1)[i := (queue s1 ! i)\<lparr>q_AgentID := agentID\<rparr>]\<rparr>;
               (result, s3) = ExecuteCommand e agentID (q_Command (queue s2 ! i)) s2
           in CompleteQueueItem (q_Index (queue s3 ! i)) (r_Output result)
                (r_ExitCode result = 0) s3)
      | (None, s1) \<Rightarrow> s1)"

text \<open>
  \<^verbatim>\<open>for am.running && !am.terminated { ... }\<close> may run for ever, so the loop takes fuel:
  one unit per pass, \<open>None\<close> when the fuel is used up before the condition turns false.
\<close>

fun StartAgentLoop :: "nat \<Rightarrow> env \<Rightarrow> int \<Rightarrow> AgentManager \<Rightarrow> AgentManager option" where
  "StartAgentLoop 0 e agentID s =
     (if running s \<and> \<not> terminated s then None else Some s)"
| "StartAgentLoop (Suc fuel) e agentID s =
     (if running s \<and> \<not> terminated s then StartAgentLoop fuel e agentID (loop_body e agentID s)
      else Some s)"

section \<open>Sequences of calls\<close>

text \<open>
  The methods and handlers that change the manager, as values, so that properties of
  every sequence of calls can be stated. \<open>LoopBody\<close> is the body of one pass of an
  agent's loop. The test of the loop condition that comes before it reads the two flags
  without a lock and changes nothing, so other calls can come between the test and the
  body: in a sequence of calls the body may stand anywhere. \<open>Stop\<close> is the \<^verbatim>\<open>"stop"\<close>
  message (\<^verbatim>\<open>manager.running = false\<close>) and \<open>Clear\<close> the \<^verbatim>\<open>/queue clear\<close> chat command.
\<close>

datatype call =
    CallAddAgent string
  | CallRemoveAgent int
  | CallAddToQueue "(string, string) fmap"
  | CallAddToQueueWithPriority string int
  | CallRemoveFromQueue int
  | CallGetNextQueueItem
  | CallCompleteQueueItem int string bool
  | CallExecuteCommand int string
  | CallGracefulTerminate string
  | LoopBody int
  | Stop
  | Clear

fun do_call :: "env \<Rightarrow> call \<Rightarrow> AgentManager \<Rightarrow> AgentManager" where
  "do_call e (CallAddAgent name) s = snd (AddAgent e name s)"
| "do_call e (CallRemoveAgent aid) s = snd (RemoveAgent aid s)"
| "do_call e (CallAddToQueue commands) s = AddToQueue e commands s"
| "do_call e (CallAddToQueueWithPriority command priority) s =
     AddToQueueWithPriority e command priority s"
| "do_call e (CallRemoveFromQueue index) s = snd (RemoveFromQueue index s)"
| "do_call e CallGetNextQueueItem s = snd (GetNextQueueItem s)"
| "do_call e (CallCompleteQueueItem index output success) s =
     CompleteQueueItem index output success s"
| "do_call e (CallExecuteCommand agentID command) s = snd (ExecuteCommand e agentID command s)"
| "do_call e (CallGracefulTerminate signal) s = GracefulTerminate signal s"
| "do_call e (LoopBody agentID) s = loop_body e agentID s"
| "do_call e Stop s = s\<lparr>running := False\<rparr>"
| "do_call e Clear s = s\<lparr>queue := []\<rparr>"

fun do_calls :: "(env \<times> call) list \<Rightarrow> AgentManager \<Rightarrow> AgentManager" where
  "do_calls [] s = s"
| "do_calls ((e, c) # cs) s = do_calls cs (do_call e c s)"

section \<open>The loops as goroutines\<close>

text \<open>
  \<^verbatim>\<open>StartAgentLoop\<close> starts a goroutine and returns. Each goroutine is at one of three
  places: about to test \<^verbatim>\<open>am.running && !am.terminated\<close>, past a test that held and
  about to run the body (which begins with \<^verbatim>\<open>GetNextQueueItem\<close>), or out of the loop.
  The test takes no lock, so any request and any step of another goroutine can come
  between a test and the body that follows it. The body is one step; its first action
  is the claim, so a body run after some event stands for a claim made after it. A system
  is the manager with its goroutines, each with the agent id it was started for; an event is a request, the
  start of a loop, or one step of the goroutine with the given number.
\<close>

datatype loop_pc = AtTest | AtBody | Exited

record system =
  mgr :: AgentManager
  goroutines :: "(int \<times> loop_pc) list"

datatype event = Request env call | Start int | LoopStep env nat

fun step :: "event \<Rightarrow> system \<Rightarrow> system" where
  "step (Request e c) sys = sys\<lparr>mgr := do_call e c (mgr sys)\<rparr>"
| "step (Start agentID) sys = sys\<lparr>goroutines := goroutines sys @ [(agentID, AtTest)]\<rparr>"
| "step (LoopStep e n) sys =
     (if n < length (goroutines sys) then
        (case goroutines sys ! n of
           (agentID, AtTest) \<Rightarrow>
             sys\<lparr>goroutines := (goroutines sys)
                    [n := (agentID, if running (mgr sys) \<and> \<not> terminated (mgr sys)
                                    then AtBody else Exited)]\<rparr>
         | (agentID, AtBody) \<Rightarrow>
             sys\<lparr>mgr := loop_body e agentID (mgr sys),
                 goroutines := (goroutines sys)[n := (agentID, AtTest)]\<rparr>
         | (agentID, Exited) \<Rightarrow> sys)
      else sys)"

fun run :: "event list \<Rightarrow> system \<Rightarrow> system" where
  "run [] sys = sys"
| "run (ev # evs) sys = run evs (step ev sys)"

text \<open>
  How many times goroutine \<open>n\<close> runs the body of a pass, and so calls
  \<^verbatim>\<open>GetNextQueueItem\<close>, during the events.
\<close>

fun passes_run :: "nat \<Rightarrow> event list \<Rightarrow> system \<Rightarrow> nat" where
  "passes_run n [] sys = 0"
| "passes_run n (ev # evs) sys =
     (case ev of
        LoopStep e m \<Rightarrow>
          (if m = n \<and> n < length (goroutines sys) \<and> snd (goroutines sys ! n) = AtBody
           then 1 else 0)
      | _ \<Rightarrow> 0) + passes_run n evs (step ev sys)"

section \<open>The queue as a slice over a backing array\<close>

text \<open>
  Where it matters who shares storage with whom, \<^verbatim>\<open>am.queue\<close> is a slice header (the
  address of a backing array and a length) and the arrays live in a store. The capacity
  is left out: the two functions modelled at this level never append.
\<close>

record slice =
  s_array :: ref
  s_len :: nat

record queue_store =
  am_queue :: slice
  arrays :: "ref \<Rightarrow> QueueItem list"

definition slice_items :: "(ref \<Rightarrow> QueueItem list) \<Rightarrow> slice \<Rightarrow> QueueItem list" where
  "slice_items mem sl = take (s_len sl) (mem (s_array sl))"

text \<open>\<^verbatim>\<open>GetQueueList\<close> is \<^verbatim>\<open>return am.queue\<close>: the header, by value.\<close>

definition GetQueueList :: "queue_store \<Rightarrow> slice" where
  "GetQueueList st = am_queue st"

text \<open>
  \<^verbatim>\<open>GetNextQueueItem\<close> on the store: the same scan, then
  \<^verbatim>\<open>am.queue[bestIdx].Status = "running"\<close> written into the backing array. The pointer
  returned is the array's address with the position.
\<close>

definition GetNextQueueItem_mem :: "queue_store \<Rightarrow> (ref \<times> nat) option \<times> queue_store" where
  "GetNextQueueItem_mem st =
     (case scan_queue (slice_items (arrays st) (am_queue st)) 0 None (- 1) of
        Some i \<Rightarrow>
          (let a = s_array (am_queue st)
           in (Some (a, i),
               st\<lparr>arrays := (arrays st)
                     (a := (arrays st a)[i := (arrays st a ! i)\<lparr>q_Status := ''running''\<rparr>])\<rparr>))
      | None \<Rightarrow> (None, st))"

section \<open>A concrete environment\<close>

text \<open>
  For evaluating the functions on concrete inputs: the clock stands at 0, every command
  line handed to the shell exits with status 0 after printing itself, and there is no
  database.
\<close>

definition env0 :: env where
  "env0 = \<lparr>now = 0, now_text = ''1970-01-01T00:00:00Z'',
            shell = (\<lambda>c. \<lparr>p_output = c, p_err = None, p_millis = 0\<rparr>),
            saveQueueItemToDB = (\<lambda>_. 0)\<rparr>"

text \<open>
  States reached from \<open>NewAgentManager\<close> by calls, used as concrete inputs: two agents
  created and the first removed; ten agents created; four commands enqueued with the
  priorities 3, 1, 3, 2.
\<close>

definition one_left :: AgentManager where
  "one_left = do_calls [(env0, CallAddAgent ''a''), (env0, CallAddAgent ''b''),
                        (env0, CallRemoveAgent 1)] NewAgentManager"

definition ten_agents :: AgentManager where
  "ten_agents = do_calls (replicate 10 (env0, CallAddAgent ''a'')) NewAgentManager"

definition four_items :: AgentManager where
  "four_items = do_calls [(env0, CallAddToQueueWithPriority ''RUN a'' 3),
                          (env0, CallAddToQueueWithPriority ''RUN b'' 1),
                          (env0, CallAddToQueueWithPriority ''RUN c'' 3),
                          (env0, CallAddToQueueWithPriority ''RUN d'' 2)] NewAgentManager"

definition negative_item :: AgentManager where
  "negative_item = AddToQueueWithPriority env0 ''RUN x'' (- 1) NewAgentManager"

text \<open>
  Command maps: slots 1 and 2; slots 1 and 3 (slot 2 missing); slots 1, 3 and 4 (slot 2
  missing).
\<close>

definition pair_map :: "(string, string) fmap" where
  "pair_map = fmupd ''1'' ''RUN echo a'' (fmupd ''2'' ''RUN echo b'' fmempty)"

definition short_gap_map :: "(string, string) fmap" where
  "short_gap_map = fmupd ''1'' ''RUN a'' (fmupd ''3'' ''RUN c'' fmempty)"

definition gap_map :: "(string, string) fmap" where
  "gap_map = fmupd ''1'' ''RUN a'' (fmupd ''3'' ''RUN c'' (fmupd ''4'' ''RUN d'' fmempty))"

text \<open>
  The queue of \<open>four_items\<close> with two goroutines started, for agents 1 and 2: the first
  has tested the flags and found them in order, the second has not tested yet. Then the
  termination signal arrives.
\<close>

definition two_loops :: system where
  "two_loops = run [Start 1, Start 2, LoopStep env0 0] \<lparr>mgr = four_items, goroutines = []\<rparr>"

definition signalled :: system where
  "signalled = step (Request env0 (CallGracefulTerminate ''<END!>'')) two_loops"

text \<open>The queue of \<open>four_items\<close> laid out in a backing array at address 0.\<close>

definition four_items_store :: queue_store where
  "four_items_store =
     \<lparr>am_queue = \<lparr>s_array = 0, s_len = 4\<rparr>, arrays = (\<lambda>_. [])(0 := queue four_items)\<rparr>"

section \<open>Notions used to state the claims\<close>

text \<open>
  The indices a call assigns are those of the items it appends; \<open>index_trace\<close> lists the
  indices assigned during a run of calls, in the order of assignment.
\<close>

definition assigned_indices :: "env \<Rightarrow> call \<Rightarrow> AgentManager \<Rightarrow> int list" where
  "assigned_indices e c s =
     (case c of
        CallAddToQueue commands \<Rightarrow>
          map q_Index (drop (length (queue s)) (queue (AddToQueue e commands s)))
      | CallAddToQueueWithPriority command priority \<Rightarrow>
          map q_Index (drop (length (queue s))
            (queue (AddToQueueWithPriority e command priority s)))
      | _ \<Rightarrow> [])"

fun index_trace :: "(env \<times> call) list \<Rightarrow> AgentManager \<Rightarrow> int list" where
  "index_trace [] s = []"
| "index_trace ((e, c) # cs) s = assigned_indices e c s @ index_trace cs (do_call e c s)"

text \<open>
  A command map has no gap when each of the keys \<^verbatim>\<open>"1"\<close>, ..., \<^verbatim>\<open>"n"\<close> is in it, \<open>n\<close>
  being its size. \<open>enqueue_call\<close> holds of the calls that enqueue: \<^verbatim>\<open>AddToQueue\<close> with
  such a map, and \<^verbatim>\<open>AddToQueueWithPriority\<close>.
\<close>

definition gapless :: "(string, string) fmap \<Rightarrow> bool" where
  "gapless commands =
     list_all (\<lambda>i. decimal i |\<in>| fmdom commands) [1..<Suc (fcard (fmdom commands))]"

fun enqueue_call :: "call \<Rightarrow> bool" where
  "enqueue_call (CallAddToQueue commands) = gapless commands"
| "enqueue_call (CallAddToQueueWithPriority command priority) = True"
| "enqueue_call _ = False"

text \<open>
  Three runs: one that enqueues only, with a map that has no gap; one that removes the item
  with index 1 between two enqueues; one that enqueues a map with a gap and then one more
  command.
\<close>

definition enqueue_calls :: "(env \<times> call) list" where
  "enqueue_calls = [(env0, CallAddToQueueWithPriority ''RUN a'' 0),
                    (env0, CallAddToQueue pair_map),
                    (env0, CallAddToQueueWithPriority ''RUN c'' 5)]"

definition reuse_calls :: "(env \<times> call) list" where
  "reuse_calls = [(env0, CallAddToQueueWithPriority ''RUN a'' 0),
                  (env0, CallAddToQueueWithPriority ''RUN b'' 0),
                  (env0, CallRemoveFromQueue 1),
                  (env0, CallAddToQueueWithPriority ''RUN c'' 0)]"

definition gap_calls :: "(env \<times> call) list" where
  "gap_calls = [(env0, CallAddToQueue gap_map),
                (env0, CallAddToQueueWithPriority ''RUN e'' 0)]"

text \<open>
  Every pointer held by the registry has been allocated. This holds of the new manager and
  is kept by every call.
\<close>

definition refs_allocated :: "AgentManager \<Rightarrow> bool" where
  "refs_allocated s = (\<forall>p \<in> fmran' (agents s). p < next_ref s)"

section \<open>Basic facts\<close>

subsection \<open>The id search and the range loops\<close>

lemma find_free_id_ge: "i \<le> find_free_id m i"
proof (induction m i rule: find_free_id.induct)
  case (1 m i)
  show ?case
  proof (cases "i |\<in>| fmdom m")
    case True
    with 1 have "i + 1 \<le> find_free_id m (i + 1)" by simp
    with True show ?thesis by (subst find_free_id.simps) simp
  next
    case False
    then show ?thesis by (subst find_free_id.simps) simp
  qed
qed

lemma find_free_id_free: "find_free_id m i |\<notin>| fmdom m"
proof (induction m i rule: find_free_id.induct)
  case (1 m i)
  show ?case
    using 1 by (subst find_free_id.simps) simp
qed

lemma find_free_id_below: "i \<le> k \<Longrightarrow> k < find_free_id m i \<Longrightarrow> k |\<in>| fmdom m"
proof (induction m i rule: find_free_id.induct)
  case (1 m i)
  show ?case
  proof (cases "i |\<in>| fmdom m")
    case True
    with 1(3) have lt: "k < find_free_id m (i + 1)" by (subst (asm) find_free_id.simps) simp
    show ?thesis
    proof (cases "k = i")
      case True
      with \<open>i |\<in>| fmdom m\<close> show ?thesis by simp
    next
      case False
      with 1(2) have "i + 1 \<le> k" by simp
      with 1(1) True lt show ?thesis by simp
    qed
  next
    case False
    with 1(3) have "k < i" by (subst (asm) find_free_id.simps) simp
    with 1(2) show ?thesis by simp
  qed
qed

lemma first_index_None: "first_index P xs = None \<longleftrightarrow> (\<forall>x \<in> set xs. \<not> P x)"
  by (induction xs) auto

lemma first_index_Some:
  "first_index P xs = Some i \<Longrightarrow> i < length xs \<and> P (xs ! i) \<and> (\<forall>j < i. \<not> P (xs ! j))"
proof (induction xs arbitrary: i)
  case Nil
  then show ?case by simp
next
  case (Cons x xs)
  show ?case
  proof (cases "P x")
    case True
    with Cons.prems show ?thesis by simp
  next
    case False
    with Cons.prems obtain j where j: "first_index P xs = Some j" "i = Suc j" by auto
    from Cons.IH [OF j(1)] False j(2) show ?thesis
      by (auto simp: nth_Cons less_Suc_eq_0_disj)
  qed
qed

lemma TrimPrefix_no_prefix: "\<not> HasPrefix s p \<Longrightarrow> TrimPrefix s p = s"
  by (simp add: TrimPrefix_def)

subsection \<open>What each operation leaves alone\<close>

lemma agent_count_AddAgent:
  "agent_count (snd (AddAgent e name s)) =
     (if maxAgents s \<le> int (agent_count s) then agent_count s else Suc (agent_count s))"
  by (simp add: AddAgent_def agent_count_def Let_def fcard_finsert_if find_free_id_free)

lemma agent_count_RemoveAgent: "agent_count (snd (RemoveAgent aid s)) \<le> agent_count s"
  by (auto simp: RemoveAgent_def agent_count_def fmfilter_alt_defs
      intro!: fcard_mono split: option.splits)

lemma maxAgents_AddAgent [simp]: "maxAgents (snd (AddAgent e name s)) = maxAgents s"
  by (simp add: AddAgent_def Let_def)

lemma maxAgents_RemoveAgent [simp]: "maxAgents (snd (RemoveAgent aid s)) = maxAgents s"
  by (simp add: RemoveAgent_def split: option.splits)

lemma frame_AddToQueue [simp]:
  "agents (AddToQueue e commands s) = agents s"
  "heap (AddToQueue e commands s) = heap s"
  "next_ref (AddToQueue e commands s) = next_ref s"
  "maxAgents (AddToQueue e commands s) = maxAgents s"
  "running (AddToQueue e commands s) = running s"
  "terminated (AddToQueue e commands s) = terminated s"
  "spawned (AddToQueue e commands s) = spawned s"
  by (simp_all add: AddToQueue_def Let_def)

lemma frame_AddToQueueWithPriority [simp]:
  "agents (AddToQueueWithPriority e command priority s) = agents s"
  "heap (AddToQueueWithPriority e command priority s) = heap s"
  "next_ref (AddToQueueWithPriority e command priority s) = next_ref s"
  "maxAgents (AddToQueueWithPriority e command priority s) = maxAgents s"
  "running (AddToQueueWithPriority e command priority s) = running s"
  "terminated (AddToQueueWithPriority e command priority s) = terminated s"
  "spawned (AddToQueueWithPriority e command priority s) = spawned s"
  by (simp_all add: AddToQueueWithPriority_def Let_def)

lemma frame_RemoveFromQueue [simp]:
  "agents (snd (RemoveFromQueue index s)) = agents s"
  "heap (snd (RemoveFromQueue index s)) = heap s"
  "next_ref (snd (RemoveFromQueue index s)) = next_ref s"
  "maxAgents (snd (RemoveFromQueue index s)) = maxAgents s"
  "running (snd (RemoveFromQueue index s)) = running s"
  "terminated (snd (RemoveFromQueue index s)) = terminated s"
  "spawned (snd (RemoveFromQueue index s)) = spawned s"
  by (simp_all add: RemoveFromQueue_def split: option.splits)

lemma frame_GetNextQueueItem [simp]:
  "agents (snd (GetNextQueueItem s)) = agents s"
  "heap (snd (GetNextQueueItem s)) = heap s"
  "next_ref (snd (GetNextQueueItem s)) = next_ref s"
  "maxAgents (snd (GetNextQueueItem s)) = maxAgents s"
  "running (snd (GetNextQueueItem s)) = running s"
  "terminated (snd (GetNextQueueItem s)) = terminated s"
  "spawned (snd (GetNextQueueItem s)) = spawned s"
  by (simp_all add: GetNextQueueItem_def split: option.splits)

lemma frame_CompleteQueueItem [simp]:
  "agents (CompleteQueueItem index output success s) = agents s"
  "heap (CompleteQueueItem index output success s) = heap s"
  "next_ref (CompleteQueueItem index output success s) = next_ref s"
  "maxAgents (CompleteQueueItem index output success s) = maxAgents s"
  "running (CompleteQueueItem index output success s) = running s"
  "terminated (CompleteQueueItem index output success s) = terminated s"
  "spawned (CompleteQueueItem index output success s) = spawned s"
  by (simp_all add: CompleteQueueItem_def split: option.splits)

lemma frame_mark_running [simp]:
  "agents (mark_running e found command s) = agents s"
  "next_ref (mark_running e found command s) = next_ref s"
  "queue (mark_running e found command s) = queue s"
  "maxAgents (mark_running e found command s) = maxAgents s"
  "running (mark_running e found command s) = running s"
  "terminated (mark_running e found command s) = terminated s"
  "spawned (mark_running e found command s) = spawned s"
  by (simp_all add: mark_running_def split: option.splits)

lemma frame_mark_idle [simp]:
  "agents (mark_idle found result s) = agents s"
  "next_ref (mark_idle found result s) = next_ref s"
  "queue (mark_idle found result s) = queue s"
  "maxAgents (mark_idle found result s) = maxAgents s"
  "running (mark_idle found result s) = running s"
  "terminated (mark_idle found result s) = terminated s"
  "spawned (mark_idle found result s) = spawned s"
  by (simp_all add: mark_idle_def Let_def split: option.splits)

lemma frame_spawn_and_settle [simp]:
  "agents (snd (spawn_and_settle e found c result s)) = agents s"
  "next_ref (snd (spawn_and_settle e found c result s)) = next_ref s"
  "queue (snd (spawn_and_settle e found c result s)) = queue s"
  "maxAgents (snd (spawn_and_settle e found c result s)) = maxAgents s"
  "running (snd (spawn_and_settle e found c result s)) = running s"
  "terminated (snd (spawn_and_settle e found c result s)) = terminated s"
  by (simp_all add: spawn_and_settle_def Let_def)

lemma frame_ExecuteCommand [simp]:
  "agents (snd (ExecuteCommand e agentID command s)) = agents s"
  "next_ref (snd (ExecuteCommand e agentID command s)) = next_ref s"
  "queue (snd (ExecuteCommand e agentID command s)) = queue s"
  "maxAgents (snd (ExecuteCommand e agentID command s)) = maxAgents s"
  "running (snd (ExecuteCommand e agentID command s)) = running s"
  "terminated (snd (ExecuteCommand e agentID command s)) = terminated s"
  by (simp_all add: ExecuteCommand_def Let_def split: prod.splits)

lemma frame_loop_body [simp]:
  "agents (loop_body e agentID s) = agents s"
  "next_ref (loop_body e agentID s) = next_ref s"
  "maxAgents (loop_body e agentID s) = maxAgents s"
  "running (loop_body e agentID s) = running s"
  "terminated (loop_body e agentID s) = terminated s"
proof -
  obtain r s1 where g: "GetNextQueueItem s = (r, s1)" by (cases "GetNextQueueItem s")
  have f: "agents s1 = agents s" "next_ref s1 = next_ref s" "maxAgents s1 = maxAgents s"
    "running s1 = running s" "terminated s1 = terminated s"
    using frame_GetNextQueueItem [of s] g by simp_all
  show "agents (loop_body e agentID s) = agents s"
    "next_ref (loop_body e agentID s) = next_ref s"
    "maxAgents (loop_body e agentID s) = maxAgents s"
    "running (loop_body e agentID s) = running s"
    "terminated (loop_body e agentID s) = terminated s"
    using f by (simp_all add: loop_body_def g Let_def case_prod_unfold split: option.splits)
qed

lemma frame_GracefulTerminate [simp]:
  "agents (GracefulTerminate signal s) = agents s"
  "heap (GracefulTerminate signal s) = heap s"
  "next_ref (GracefulTerminate signal s) = next_ref s"
  "queue (GracefulTerminate signal s) = queue s"
  "maxAgents (GracefulTerminate signal s) = maxAgents s"
  "spawned (GracefulTerminate signal s) = spawned s"
  by (simp_all add: GracefulTerminate_def)

subsection \<open>The concrete states\<close>

lemma NewAgentManager_fields [simp]:
  "agents NewAgentManager = fmempty"
  "next_ref NewAgentManager = 0"
  "queue NewAgentManager = []"
  "maxAgents NewAgentManager = 10"
  "running NewAgentManager"
  "\<not> terminated NewAgentManager"
  "spawned NewAgentManager = []"
  by (simp_all add: NewAgentManager_def)

lemma agent_count_eval [simp]:
  "agent_count (s\<lparr>agents := m\<rparr>) = fcard (fmdom m)"
  "agent_count NewAgentManager = 0"
  by (simp_all add: agent_count_def fcard_fempty)

lemmas eval_simps = AddAgent_def RemoveAgent_def agent_count_def find_free_id.simps
  fcard_fempty fcard_finsert_if Let_def AddToQueueWithPriority_def env0_def

lemma one_left_agents: "agents one_left = fmdrop 1 (fmupd 2 1 (fmupd 1 0 fmempty))"
  by (simp add: one_left_def eval_simps)

lemma one_left_fields:
  "fmlookup (agents one_left) 2 = Some 1" "fmlookup (agents one_left) 1 = None"
  "agent_count one_left = 1" "maxAgents one_left = 10" "next_ref one_left = 2"
  "\<not> terminated one_left"
  by (simp_all add: one_left_def eval_simps)

lemma ten_agents_full: "agent_count ten_agents = 10" "maxAgents ten_agents = 10"
  by code_simp+

lemma four_items_queue:
  "map q_Index (queue four_items) = [1, 2, 3, 4]"
  "map q_Priority (queue four_items) = [3, 1, 3, 2]"
  "map q_Status (queue four_items) = [''pending'', ''pending'', ''pending'', ''pending'']"
  by (simp_all add: four_items_def eval_simps)

subsection \<open>Invariants of every sequence of calls\<close>

lemma do_call_count:
  "int (agent_count s) \<le> maxAgents s \<Longrightarrow>
   int (agent_count (do_call e c s)) \<le> maxAgents s \<and> maxAgents (do_call e c s) = maxAgents s"
proof (cases c)
  case (CallAddAgent name)
  assume "int (agent_count s) \<le> maxAgents s"
  with CallAddAgent show ?thesis by (simp add: agent_count_AddAgent)
next
  case (CallRemoveAgent aid)
  assume "int (agent_count s) \<le> maxAgents s"
  with agent_count_RemoveAgent [of aid s] CallRemoveAgent show ?thesis by simp
qed (simp_all add: agent_count_def)

lemma do_calls_count:
  "int (agent_count s) \<le> maxAgents s \<Longrightarrow>
   int (agent_count (do_calls cs s)) \<le> maxAgents s \<and> maxAgents (do_calls cs s) = maxAgents s"
proof (induction cs arbitrary: s)
  case Nil
  then show ?case by simp
next
  case (Cons ec cs)
  obtain e c where ec: "ec = (e, c)" by (cases ec)
  from do_call_count [OF Cons.prems, of e c]
  have 1: "int (agent_count (do_call e c s)) \<le> maxAgents (do_call e c s)"
    and 2: "maxAgents (do_call e c s) = maxAgents s" by simp_all
  from Cons.IH [OF 1] 2 show ?case by (simp add: ec)
qed

lemma terminated_do_call: "terminated s \<Longrightarrow> terminated (do_call e c s)"
  by (cases c) (simp_all add: AddAgent_def RemoveAgent_def GracefulTerminate_def Let_def
      split: option.splits)

lemma terminated_do_calls: "terminated s \<Longrightarrow> terminated (do_calls cs s)"
proof (induction cs arbitrary: s)
  case Nil
  then show ?case by simp
next
  case (Cons ec cs)
  obtain e c where ec: "ec = (e, c)" by (cases ec)
  from Cons.prems have "terminated (do_call e c s)" by (rule terminated_do_call)
  then show ?case using Cons.IH by (simp add: ec)
qed

lemma StartAgentLoop_terminated: "terminated s \<Longrightarrow> StartAgentLoop fuel e agentID s = Some s"
  by (cases fuel) simp_all

lemma ExecuteCommand_never_rejects:
  "\<not> terminated s \<Longrightarrow>
   spawned (snd (ExecuteCommand e agentID command s)) =
     spawned s @ [TrimPrefix command ''RUN '']"
  by (cases "HasPrefix command ''RUN ''")
    (simp_all add: ExecuteCommand_def validateCommand_def TrimPrefix_no_prefix
      spawn_and_settle_def Let_def)

subsection \<open>The scan for the next item\<close>

text \<open>
  What the scan returns, for any starting position, kept position and priority to beat:
  either nothing in the list beats the priority and the kept position comes back, or the
  position of the first among the pending items of highest priority.
\<close>

lemma scan_queue_spec:
  "scan_queue xs i b bp = r \<Longrightarrow>
     (r = b \<and> (\<forall>x \<in> set xs. q_Status x = ''pending'' \<longrightarrow> q_Priority x \<le> bp))
   \<or> (\<exists>k < length xs. r = Some (i + k) \<and> q_Status (xs ! k) = ''pending''
         \<and> bp < q_Priority (xs ! k)
         \<and> (\<forall>j < length xs. q_Status (xs ! j) = ''pending'' \<longrightarrow>
               q_Priority (xs ! j) \<le> q_Priority (xs ! k))
         \<and> (\<forall>j < k. q_Status (xs ! j) = ''pending'' \<longrightarrow>
               q_Priority (xs ! j) < q_Priority (xs ! k)))"
proof (induction xs arbitrary: i b bp)
  case Nil
  then show ?case by simp
next
  case (Cons x xs)
  show ?case
  proof (cases "q_Status x = ''pending'' \<and> bp < q_Priority x")
    case True
    with Cons.prems have r: "scan_queue xs (Suc i) (Some i) (q_Priority x) = r" by simp
    from Cons.IH [OF r] show ?thesis
    proof
      assume a: "r = Some i \<and> (\<forall>y \<in> set xs. q_Status y = ''pending'' \<longrightarrow> q_Priority y \<le> q_Priority x)"
      have "\<forall>j < length (x # xs). q_Status ((x # xs) ! j) = ''pending'' \<longrightarrow>
               q_Priority ((x # xs) ! j) \<le> q_Priority x"
      proof (intro allI impI)
        fix j assume "j < length (x # xs)" "q_Status ((x # xs) ! j) = ''pending''"
        then show "q_Priority ((x # xs) ! j) \<le> q_Priority x"
          using a by (cases j) auto
      qed
      with a True have "0 < length (x # xs) \<and> r = Some (i + 0)
         \<and> q_Status ((x # xs) ! 0) = ''pending'' \<and> bp < q_Priority ((x # xs) ! 0)
         \<and> (\<forall>j < length (x # xs). q_Status ((x # xs) ! j) = ''pending'' \<longrightarrow>
               q_Priority ((x # xs) ! j) \<le> q_Priority ((x # xs) ! 0))
         \<and> (\<forall>j < 0. q_Status ((x # xs) ! j) = ''pending'' \<longrightarrow>
               q_Priority ((x # xs) ! j) < q_Priority ((x # xs) ! 0))"
        by simp
      then show ?thesis by blast
    next
      assume "\<exists>k < length xs. r = Some (Suc i + k) \<and> q_Status (xs ! k) = ''pending''
         \<and> q_Priority x < q_Priority (xs ! k)
         \<and> (\<forall>j < length xs. q_Status (xs ! j) = ''pending'' \<longrightarrow>
               q_Priority (xs ! j) \<le> q_Priority (xs ! k))
         \<and> (\<forall>j < k. q_Status (xs ! j) = ''pending'' \<longrightarrow>
               q_Priority (xs ! j) < q_Priority (xs ! k))"
      then obtain k where k: "k < length xs" "r = Some (Suc i + k)"
        "q_Status (xs ! k) = ''pending''" "q_Priority x < q_Priority (xs ! k)"
        "\<forall>j < length xs. q_Status (xs ! j) = ''pending'' \<longrightarrow>
               q_Priority (xs ! j) \<le> q_Priority (xs ! k)"
        "\<forall>j < k. q_Status (xs ! j) = ''pending'' \<longrightarrow>
               q_Priority (xs ! j) < q_Priority (xs ! k)" by blast
      have le: "\<forall>j < length (x # xs). q_Status ((x # xs) ! j) = ''pending'' \<longrightarrow>
               q_Priority ((x # xs) ! j) \<le> q_Priority ((x # xs) ! Suc k)"
      proof (intro allI impI)
        fix j assume "j < length (x # xs)" "q_Status ((x # xs) ! j) = ''pending''"
        then show "q_Priority ((x # xs) ! j) \<le> q_Priority ((x # xs) ! Suc k)"
          using k(4,5) by (cases j) auto
      qed
      have lt: "\<forall>j < Suc k. q_Status ((x # xs) ! j) = ''pending'' \<longrightarrow>
               q_Priority ((x # xs) ! j) < q_Priority ((x # xs) ! Suc k)"
      proof (intro allI impI)
        fix j assume "j < Suc k" "q_Status ((x # xs) ! j) = ''pending''"
        then show "q_Priority ((x # xs) ! j) < q_Priority ((x # xs) ! Suc k)"
          using k(4,6) by (cases j) auto
      qed
      from k True le lt have "Suc k < length (x # xs) \<and> r = Some (i + Suc k)
         \<and> q_Status ((x # xs) ! Suc k) = ''pending'' \<and> bp < q_Priority ((x # xs) ! Suc k)
         \<and> (\<forall>j < length (x # xs). q_Status ((x # xs) ! j) = ''pending'' \<longrightarrow>
               q_Priority ((x # xs) ! j) \<le> q_Priority ((x # xs) ! Suc k))
         \<and> (\<forall>j < Suc k. q_Status ((x # xs) ! j) = ''pending'' \<longrightarrow>
               q_Priority ((x # xs) ! j) < q_Priority ((x # xs) ! Suc k))"
        by simp
      then show ?thesis by blast
    qed
  next
    case False
    with Cons.prems have r: "scan_queue xs (Suc i) b bp = r" by auto
    from Cons.IH [OF r] show ?thesis
    proof
      assume "r = b \<and> (\<forall>y \<in> set xs. q_Status y = ''pending'' \<longrightarrow> q_Priority y \<le> bp)"
      with False show ?thesis by auto
    next
      assume "\<exists>k < length xs. r = Some (Suc i + k) \<and> q_Status (xs ! k) = ''pending''
         \<and> bp < q_Priority (xs ! k)
         \<and> (\<forall>j < length xs. q_Status (xs ! j) = ''pending'' \<longrightarrow>
               q_Priority (xs ! j) \<le> q_Priority (xs ! k))
         \<and> (\<forall>j < k. q_Status (xs ! j) = ''pending'' \<longrightarrow>
               q_Priority (xs ! j) < q_Priority (xs ! k))"
      then obtain k where k: "k < length xs" "r = Some (Suc i + k)"
        "q_Status (xs ! k) = ''pending''" "bp < q_Priority (xs ! k)"
        "\<forall>j < length xs. q_Status (xs ! j) = ''pending'' \<longrightarrow>
               q_Priority (xs ! j) \<le> q_Priority (xs ! k)"
        "\<forall>j < k. q_Status (xs ! j) = ''pending'' \<longrightarrow>
               q_Priority (xs ! j) < q_Priority (xs ! k)" by blast
      have le: "\<forall>j < length (x # xs). q_Status ((x # xs) ! j) = ''pending'' \<longrightarrow>
               q_Priority ((x # xs) ! j) \<le> q_Priority ((x # xs) ! Suc k)"
      proof (intro allI impI)
        fix j assume "j < length (x # xs)" "q_Status ((x # xs) ! j) = ''pending''"
        then show "q_Priority ((x # xs) ! j) \<le> q_Priority ((x # xs) ! Suc k)"
          using k(4,5) False by (cases j) auto
      qed
      have lt: "\<forall>j < Suc k. q_Status ((x # xs) ! j) = ''pending'' \<longrightarrow>
               q_Priority ((x # xs) ! j) < q_Priority ((x # xs) ! Suc k)"
      proof (intro allI impI)
        fix j assume "j < Suc k" "q_Status ((x # xs) ! j) = ''pending''"
        then show "q_Priority ((x # xs) ! j) < q_Priority ((x # xs) ! Suc k)"
          using k(4,6) False by (cases j) auto
      qed
      from k le lt have "Suc k < length (x # xs) \<and> r = Some (i + Suc k)
         \<and> q_Status ((x # xs) ! Suc k) = ''pending'' \<and> bp < q_Priority ((x # xs) ! Suc k)
         \<and> (\<forall>j < length (x # xs). q_Status ((x # xs) ! j) = ''pending'' \<longrightarrow>
               q_Priority ((x # xs) ! j) \<le> q_Priority ((x # xs) ! Suc k))
         \<and> (\<forall>j < Suc k. q_Status ((x # xs) ! j) = ''pending'' \<longrightarrow>
               q_Priority ((x # xs) ! j) < q_Priority ((x # xs) ! Suc k))"
        by simp
      then show ?thesis by blast
    qed
  qed
qed

lemma GetNextQueueItem_claims_best:
  assumes "GetNextQueueItem s = (Some k, s')"
  shows "k < length (queue s) \<and> q_Status (queue s ! k) = ''pending''
       \<and> (\<forall>j < length (queue s). q_Status (queue s ! j) = ''pending'' \<longrightarrow>
             q_Priority (queue s ! j) \<le> q_Priority (queue s ! k))
       \<and> (\<forall>j < k. q_Status (queue s ! j) = ''pending'' \<longrightarrow>
             q_Priority (queue s ! j) < q_Priority (queue s ! k))
       \<and> s' = s\<lparr>queue := (queue s)[k := (queue s ! k)\<lparr>q_Status := ''running''\<rparr>]\<rparr>
       \<and> q_Status (queue s' ! k) = ''running''"
proof -
  from assms have r: "scan_queue (queue s) 0 None (- 1) = Some k"
    and s': "s' = s\<lparr>queue := (queue s)[k := (queue s ! k)\<lparr>q_Status := ''running''\<rparr>]\<rparr>"
    by (auto simp: GetNextQueueItem_def split: option.splits)
  from scan_queue_spec [OF r] s' show ?thesis by auto
qed

lemma GetNextQueueItem_none:
  "fst (GetNextQueueItem s) = None \<longleftrightarrow>
     (\<forall>item \<in> set (queue s). q_Status item = ''pending'' \<longrightarrow> q_Priority item < 0)"
proof -
  have "scan_queue (queue s) 0 None (- 1) = None \<longleftrightarrow>
     (\<forall>item \<in> set (queue s). q_Status item = ''pending'' \<longrightarrow> q_Priority item \<le> - 1)"
  proof
    assume "scan_queue (queue s) 0 None (- 1) = None"
    from scan_queue_spec [OF this]
    show "\<forall>item \<in> set (queue s). q_Status item = ''pending'' \<longrightarrow> q_Priority item \<le> - 1"
      by auto
  next
    assume a: "\<forall>item \<in> set (queue s). q_Status item = ''pending'' \<longrightarrow> q_Priority item \<le> - 1"
    obtain r where r: "scan_queue (queue s) 0 None (- 1) = r" by simp
    from scan_queue_spec [OF r] a show "scan_queue (queue s) 0 None (- 1) = None"
      unfolding r by (auto simp: not_le [symmetric])
  qed
  moreover have "\<And>x::int. x \<le> - 1 \<longleftrightarrow> x < 0" by presburger
  moreover have "fst (GetNextQueueItem s) = None \<longleftrightarrow> scan_queue (queue s) 0 None (- 1) = None"
    by (simp add: GetNextQueueItem_def split: option.splits)
  ultimately show ?thesis by simp
qed

text \<open>The scenario of the specification: priorities 3, 1, 3, 2 enqueued in that order.\<close>

lemma claim_order_3_1_3_2:
  "let (c1, s1) = GetNextQueueItem four_items;
       (c2, s2) = GetNextQueueItem s1;
       (c3, s3) = GetNextQueueItem s2;
       (c4, s4) = GetNextQueueItem s3;
       (c5, s5) = GetNextQueueItem s4
   in map (map_option (\<lambda>i. q_Index (queue four_items ! i))) [c1, c2, c3, c4, c5]
        = [Some 1, Some 3, Some 4, Some 2, None]"
  by (simp add: four_items_def eval_simps GetNextQueueItem_def)

subsection \<open>Enqueueing\<close>

lemma foldl_enqueue_slot:
  "foldl (enqueue_slot e c b base) q ns =
     q @ List.map_filter (\<lambda>i. map_option (slot_item e b base i) (fmlookup c (decimal i))) ns"
proof (induction ns arbitrary: q)
  case Nil
  show ?case by (simp add: List.map_filter_simps)
next
  case (Cons n ns)
  have step: "enqueue_slot e c b base q n =
      q @ (case fmlookup c (decimal n) of None \<Rightarrow> [] | Some cmd \<Rightarrow> [slot_item e b base n cmd])"
    by (simp add: enqueue_slot_def split: option.splits)
  show ?case
    unfolding foldl_Cons step Cons.IH
    by (simp add: List.map_filter_simps split: option.splits)
qed

lemma map_filter_map_option:
  "map g (List.map_filter (\<lambda>i. map_option (f i) (h i)) ns) =
     List.map_filter (\<lambda>i. map_option (\<lambda>x. g (f i x)) (h i)) ns"
  by (induction ns) (auto simp: List.map_filter_simps split: option.splits)

lemma AddToQueue_queue:
  "queue (AddToQueue e c s) =
     queue s @ List.map_filter
       (\<lambda>i. map_option (slot_item e (''batch_'' @ decimal (now e)) (length (queue s)) i)
              (fmlookup c (decimal i))) [1..<Suc (fcard (fmdom c))]"
  by (simp add: AddToQueue_def Let_def foldl_enqueue_slot)

lemma slot_item_fields [simp]:
  "q_Index (slot_item e b base i cmd) = int base + int i"
  "q_Command (slot_item e b base i cmd) = cmd"
  "q_Status (slot_item e b base i cmd) = ''pending''"
  "q_Priority (slot_item e b base i cmd) = 0"
  "q_AgentID (slot_item e b base i cmd) = 0"
  "q_BatchID (slot_item e b base i cmd) = b"
  by (simp_all add: slot_item_def Let_def)

lemma map_filter_all:
  "list_all (\<lambda>i. h i \<noteq> None) ns \<Longrightarrow>
   List.map_filter (\<lambda>i. map_option (f i) (h i)) ns = map (\<lambda>i. f i (the (h i))) ns"
  by (induction ns) (auto simp: List.map_filter_simps)

lemma gapless_assigned:
  assumes "gapless commands"
  shows "assigned_indices e (CallAddToQueue commands) s =
           map (\<lambda>i. int (length (queue s)) + int i) [1..<Suc (fcard (fmdom commands))]"
    and "length (queue (AddToQueue e commands s)) = length (queue s) + fcard (fmdom commands)"
proof -
  from assms have all: "list_all (\<lambda>i. fmlookup commands (decimal i) \<noteq> None)
      [1..<Suc (fcard (fmdom commands))]"
    by (auto simp: gapless_def list_all_iff fmlookup_dom_iff)
  have q: "queue (AddToQueue e commands s) = queue s @
      map (\<lambda>i. slot_item e (''batch_'' @ decimal (now e)) (length (queue s)) i
                  (the (fmlookup commands (decimal i)))) [1..<Suc (fcard (fmdom commands))]"
    unfolding AddToQueue_queue map_filter_all [OF all] ..
  show "assigned_indices e (CallAddToQueue commands) s =
           map (\<lambda>i. int (length (queue s)) + int i) [1..<Suc (fcard (fmdom commands))]"
    by (simp add: assigned_indices_def q o_def del: upt_Suc)
  show "length (queue (AddToQueue e commands s)) = length (queue s) + fcard (fmdom commands)"
    by (simp add: q del: upt_Suc)
qed

lemma priority_assigned:
  "assigned_indices e (CallAddToQueueWithPriority command priority) s =
     [int (length (queue s)) + 1]"
  "length (queue (AddToQueueWithPriority e command priority s)) = Suc (length (queue s))"
  by (simp_all add: assigned_indices_def AddToQueueWithPriority_def Let_def)

lemma sorted_offsets: "sorted_wrt (<) (map (\<lambda>i. (b::int) + int i) [m..<n])"
  by (simp add: sorted_wrt_map sorted_wrt_upt [THEN sorted_wrt_mono_rel, rotated])

lemma gap_map_size: "fcard (fmdom gap_map) = 3" "fcard (fmdom short_gap_map) = 2"
  by (simp_all add: gap_map_def short_gap_map_def fcard_finsert_if fcard_fempty)

subsection \<open>Pointers and shared storage\<close>

lemma GetAgents_subset: "set (GetAgents visit s) \<subseteq> fmran' (agents s)"
  by (auto simp: GetAgents_def List.map_filter_def fmran'I)

lemma GetAgents_member:
  "fmlookup (agents s) aid = Some p \<Longrightarrow> aid \<in> set visit \<Longrightarrow> p \<in> set (GetAgents visit s)"
  by (force simp: GetAgents_def List.map_filter_def)

lemma heap_AddAgent: "p < next_ref s \<Longrightarrow> heap (snd (AddAgent e name s)) p = heap s p"
  by (simp add: AddAgent_def Let_def)

lemma heap_RemoveAgent: "heap (snd (RemoveAgent aid s)) = heap s"
  by (simp add: RemoveAgent_def split: option.splits)

lemma ExecuteCommand_counts:
  assumes "fmlookup (agents s) aid = Some p" and "\<not> terminated s"
  shows "a_TasksDone (heap (snd (ExecuteCommand e aid command s)) p)
           + a_TasksFailed (heap (snd (ExecuteCommand e aid command s)) p)
         = a_TasksDone (heap s p) + a_TasksFailed (heap s p) + 1"
  using assms
  by (cases "HasPrefix command ''RUN ''")
    (simp_all add: ExecuteCommand_def validateCommand_def spawn_and_settle_def
      mark_running_def mark_idle_def Let_def)

text \<open>The claim on the backing array is the claim on the sequence of values.\<close>

lemma GetNextQueueItem_mem_items:
  "slice_items (arrays (snd (GetNextQueueItem_mem st))) (am_queue (snd (GetNextQueueItem_mem st)))
     = queue (snd (GetNextQueueItem (s\<lparr>queue := slice_items (arrays st) (am_queue st)\<rparr>)))"
proof (cases "scan_queue (slice_items (arrays st) (am_queue st)) 0 None (- 1)")
  case None
  then show ?thesis by (simp add: GetNextQueueItem_mem_def GetNextQueueItem_def)
next
  case (Some i)
  from scan_queue_spec [OF Some] have "i < length (slice_items (arrays st) (am_queue st))"
    by auto
  then have i: "i < s_len (am_queue st)" "i < length (arrays st (s_array (am_queue st)))"
    by (simp_all add: slice_items_def)
  with Some show ?thesis
    by (simp add: GetNextQueueItem_mem_def GetNextQueueItem_def slice_items_def Let_def
        take_update_swap)
qed

text \<open>Read through the header it had before the claim, the array shows the claim.\<close>

lemma GetNextQueueItem_mem_visible:
  "slice_items (arrays (snd (GetNextQueueItem_mem st))) (am_queue st) =
     (case fst (GetNextQueueItem_mem st) of
        None \<Rightarrow> slice_items (arrays st) (am_queue st)
      | Some (a, i) \<Rightarrow>
          (slice_items (arrays st) (am_queue st))
            [i := (slice_items (arrays st) (am_queue st) ! i)\<lparr>q_Status := ''running''\<rparr>])"
proof (cases "scan_queue (slice_items (arrays st) (am_queue st)) 0 None (- 1)")
  case None
  then show ?thesis by (simp add: GetNextQueueItem_mem_def)
next
  case (Some i)
  from scan_queue_spec [OF Some] have "i < length (slice_items (arrays st) (am_queue st))"
    by auto
  then have i: "i < s_len (am_queue st)" "i < length (arrays st (s_array (am_queue st)))"
    by (simp_all add: slice_items_def)
  with Some show ?thesis
    by (simp add: GetNextQueueItem_mem_def slice_items_def Let_def take_update_swap)
qed

lemma refs_allocated_New: "refs_allocated NewAgentManager"
  by (simp add: refs_allocated_def fmran'_alt_def)

lemma fmran'_fmupd: "fmran' (fmupd k v m) \<subseteq> insert v (fmran' m)"
  by (auto simp: fmran'_alt_def fmlookup_ran_iff split: if_splits)

lemma fmran'_fmdrop: "fmran' (fmdrop k m) \<subseteq> fmran' m"
  by (auto simp: fmran'_alt_def fmlookup_ran_iff split: if_splits)

lemma refs_allocated_do_call: "refs_allocated s \<Longrightarrow> refs_allocated (do_call e c s)"
proof (cases c)
  case (CallAddAgent name)
  assume a: "refs_allocated s"
  show ?thesis
    using a fmran'_fmupd [of "find_free_id (agents s) 1" "next_ref s" "agents s"]
    by (auto simp: CallAddAgent refs_allocated_def AddAgent_def Let_def less_Suc_eq)
next
  case (CallRemoveAgent aid)
  assume a: "refs_allocated s"
  show ?thesis
    using a fmran'_fmdrop [of aid "agents s"]
    by (auto simp: CallRemoveAgent refs_allocated_def RemoveAgent_def split: option.splits)
qed (simp_all add: refs_allocated_def)

lemma refs_allocated_do_calls: "refs_allocated s \<Longrightarrow> refs_allocated (do_calls cs s)"
proof (induction cs arbitrary: s)
  case Nil
  then show ?case by simp
next
  case (Cons ec cs)
  obtain e c where ec: "ec = (e, c)" by (cases ec)
  from Cons.prems have "refs_allocated (do_call e c s)" by (rule refs_allocated_do_call)
  then show ?case using Cons.IH by (simp add: ec)
qed

lemma refs_allocated_one_left: "refs_allocated one_left"
  unfolding one_left_def by (rule refs_allocated_do_calls [OF refs_allocated_New])

subsection \<open>The goroutines after termination\<close>

lemma terminated_step: "terminated (mgr sys) \<Longrightarrow> terminated (mgr (step ev sys))"
proof (cases ev)
  case (Request e c)
  assume "terminated (mgr sys)"
  then show ?thesis by (simp add: Request terminated_do_call)
next
  case (Start agentID)
  assume "terminated (mgr sys)"
  then show ?thesis by (simp add: Start)
next
  case (LoopStep e n)
  assume "terminated (mgr sys)"
  then show ?thesis
    by (cases "goroutines sys ! n"; cases "snd (goroutines sys ! n)") (simp_all add: LoopStep)
qed

lemma terminated_run: "terminated (mgr sys) \<Longrightarrow> terminated (mgr (run evs sys))"
  by (induction evs arbitrary: sys) (simp_all add: terminated_step)

text \<open>What a step does to the place of goroutine \<open>n\<close> once the system is terminated.\<close>

lemma step_place_terminated:
  assumes "terminated (mgr sys)"
  shows "n < length (goroutines (step ev sys)) \<and> snd (goroutines (step ev sys) ! n) = AtBody
         \<Longrightarrow> n < length (goroutines sys) \<and> snd (goroutines sys ! n) = AtBody
             \<and> (\<forall>e. ev \<noteq> LoopStep e n)"
proof (cases ev)
  case (Request e c)
  assume "n < length (goroutines (step ev sys)) \<and> snd (goroutines (step ev sys) ! n) = AtBody"
  then show ?thesis by (simp add: Request)
next
  case (Start agentID)
  assume "n < length (goroutines (step ev sys)) \<and> snd (goroutines (step ev sys) ! n) = AtBody"
  then show ?thesis by (auto simp: Start nth_append less_Suc_eq split: if_splits)
next
  case (LoopStep e m)
  assume a: "n < length (goroutines (step ev sys)) \<and> snd (goroutines (step ev sys) ! n) = AtBody"
  show ?thesis
  proof (cases "m < length (goroutines sys)")
    case False
    with a show ?thesis by (auto simp: LoopStep)
  next
    case True
    obtain agentID pc where g: "goroutines sys ! m = (agentID, pc)"
      by (cases "goroutines sys ! m")
    from a True g assms show ?thesis
      by (cases pc; cases "m = n") (auto simp: LoopStep nth_list_update)
  qed
qed

lemma passes_run_terminated:
  "terminated (mgr sys) \<Longrightarrow>
   passes_run n evs sys \<le>
     (if n < length (goroutines sys) \<and> snd (goroutines sys ! n) = AtBody then 1 else 0)"
proof (induction evs arbitrary: sys)
  case Nil
  show ?case by simp
next
  case (Cons ev evs)
  note t = terminated_step [OF Cons.prems, of ev]
  note IH = Cons.IH [OF t]
  note place = step_place_terminated [OF Cons.prems, of n ev]
  show ?case
  proof (cases "n < length (goroutines (step ev sys)) \<and> snd (goroutines (step ev sys) ! n) = AtBody")
    case True
    from place [OF True] IH True show ?thesis
      by (cases ev) auto
  next
    case False
    with IH have "passes_run n evs (step ev sys) = 0" by simp
    then show ?thesis by (cases ev) auto
  qed
qed

lemma two_loops_eval: "goroutines two_loops = [(1, AtBody), (2, AtTest)]"
  by code_simp

section \<open>The claims\<close>

subsection \<open>C1: commands without the prefix\<close>

text \<open>
  C1 says that \<^verbatim>\<open>ExecuteCommand\<close>, given a command that does not begin with \<^verbatim>\<open>"RUN "\<close>,
  returns exit code 1 with an error and spawns no subprocess. In the code the rejecting
  branch sits under \<^verbatim>\<open>if !valid\<close> in the \<^verbatim>\<open>else\<close> of
  \<^verbatim>\<open>if !strings.HasPrefix(command, "RUN ")\<close>, where it cannot be reached: an unprefixed
  command is handed to the shell as it is. At the input \<^verbatim>\<open>"echo hi"\<close>, with a shell in
  which the command succeeds, the result has exit code 0, no error, and one subprocess
  has been spawned.
\<close>

theorem ExecuteCommand_runs_unprefixed_command:
  "ExecuteCommand env0 1 ''echo hi'' NewAgentManager =
     (\<lparr>r_AgentID = 1, r_Command = ''echo hi'', r_Output = ''echo hi'', r_Error = '''',
       r_ExitCode = 0, r_Duration = 0, r_Timestamp = ''1970-01-01T00:00:00Z''\<rparr>,
      NewAgentManager\<lparr>spawned := [''echo hi'']\<rparr>)"
  by (simp add: ExecuteCommand_def validateCommand_def HasPrefix_def spawn_and_settle_def
      mark_running_def mark_idle_def read_outcome_def env0_def Let_def)

subsection \<open>C2: claiming the next item\<close>

text \<open>
  C2 says that for every queue state \<^verbatim>\<open>GetNextQueueItem\<close> claims the pending item of
  highest priority, the earliest on a tie, and returns none only if no item is pending.
  The scan starts with \<^verbatim>\<open>bestPriority := -1\<close> and keeps an item only when its priority
  is greater, so a pending item with a negative priority is never claimed. At the queue
  holding one pending item of priority -1 the function returns \<^verbatim>\<open>nil\<close> and leaves the
  item pending. (For priorities from 0 upwards the claim holds: see
  \<open>GetNextQueueItem_claims_best\<close>, \<open>GetNextQueueItem_none\<close> and \<open>claim_order_3_1_3_2\<close>.)
\<close>

theorem GetNextQueueItem_skips_negative_priority:
  "map q_Status (queue negative_item) = [''pending'']
   \<and> map q_Priority (queue negative_item) = [- 1]
   \<and> GetNextQueueItem negative_item = (None, negative_item)"
  by (simp add: negative_item_def AddToQueueWithPriority_def GetNextQueueItem_def Let_def)

subsection \<open>C3: the indices assigned to queue items\<close>

text \<open>
  C3 says that in every run of enqueues and removals each newly assigned index is greater
  than every index assigned before. The index is the length of the queue plus the slot
  number (plus 1 for \<^verbatim>\<open>AddToQueueWithPriority\<close>), and a removal shortens the queue:
  enqueue, enqueue, remove index 1, enqueue assigns 1, 2 and 2 again, and leaves two
  items with index 2 in the queue. A map with a gap does the same with no removal: the
  keys \<^verbatim>\<open>"1"\<close>, \<^verbatim>\<open>"3"\<close>, \<^verbatim>\<open>"4"\<close> get the indices 1 and 3 and leave a queue of length
  2, so the next command enqueued gets 3 again.
\<close>

theorem index_reused_after_remove_counterexample:
  "index_trace reuse_calls NewAgentManager = [1, 2, 2]
   \<and> \<not> sorted_wrt (<) (index_trace reuse_calls NewAgentManager)
   \<and> map q_Index (queue (do_calls reuse_calls NewAgentManager)) = [2, 2]
   \<and> index_trace gap_calls NewAgentManager = [1, 3, 3]
   \<and> \<not> sorted_wrt (<) (index_trace gap_calls NewAgentManager)"
  by code_simp

text \<open>
  C3 as amended: in every run made only of \<^verbatim>\<open>AddToQueueWithPriority\<close> calls and of
  \<^verbatim>\<open>AddToQueue\<close> calls whose map has no gap in its slot numbering, with no removal, each
  newly assigned index is greater than every index assigned before in the run (and than
  the length the queue had at the start).
\<close>

theorem indices_increase_without_remove:
  assumes "list_all (\<lambda>(e, c). enqueue_call c) cs"
  shows "sorted_wrt (<) (index_trace cs s)
       \<and> (\<forall>x \<in> set (index_trace cs s). int (length (queue s)) < x)"
  using assms
proof (induction cs arbitrary: s)
  case Nil
  show ?case by simp
next
  case (Cons ec cs)
  obtain e c where ec: "ec = (e, c)" by (cases ec)
  from Cons.prems ec have c: "enqueue_call c" and rest: "list_all (\<lambda>(e, c). enqueue_call c) cs"
    by simp_all
  note IH = Cons.IH [OF rest, of "do_call e c s"]
  from c show ?case
  proof (cases c)
    case (CallAddToQueue commands)
    with c have g: "gapless commands" by simp
    from IH gapless_assigned [OF g, of e s] CallAddToQueue show ?thesis
      by (auto simp: ec sorted_wrt_append sorted_offsets)
  next
    case (CallAddToQueueWithPriority command priority)
    from IH priority_assigned [of e command priority s] CallAddToQueueWithPriority
    show ?thesis
      by (auto simp: ec)
  qed simp_all
qed

theorem indices_increase_without_remove_witness:
  "list_all (\<lambda>(e, c). enqueue_call c) enqueue_calls
   \<and> index_trace enqueue_calls NewAgentManager = [1, 2, 3, 4]
   \<and> sorted_wrt (<) (index_trace enqueue_calls NewAgentManager)"
proof -
  have h: "list_all (\<lambda>(e, c). enqueue_call c) enqueue_calls" by code_simp
  have t: "index_trace enqueue_calls NewAgentManager = [1, 2, 3, 4]" by code_simp
  from h t indices_increase_without_remove [OF h, of NewAgentManager] show ?thesis by simp
qed

subsection \<open>C4: after termination\<close>

text \<open>
  C4 says that once \<^verbatim>\<open>GracefulTerminate("<END!>")\<close> has been processed every call of
  \<^verbatim>\<open>ExecuteCommand\<close> is refused and every loop makes no further claims from the queue.
  The loop reads \<^verbatim>\<open>am.running && !am.terminated\<close> without a lock and calls
  \<^verbatim>\<open>GetNextQueueItem\<close> afterwards: a goroutine that has tested the flags just before the
  signal still runs the body of that pass after it. Here the first goroutine, for agent 1,
  is past its test when the signal arrives; its next step claims the first item, stamps
  it with agent id 1 and, the command being refused with exit code 0, marks it completed,
  although no subprocess is spawned.
\<close>

theorem claim_after_termination_counterexample:
  "terminated (mgr signalled)
   \<and> goroutines signalled = [(1, AtBody), (2, AtTest)]
   \<and> map q_Status (queue (mgr signalled)) = [''pending'', ''pending'', ''pending'', ''pending'']
   \<and> map q_Status (queue (mgr (step (LoopStep env0 0) signalled)))
       = [''completed'', ''pending'', ''pending'', ''pending'']
   \<and> map q_AgentID (queue (mgr (step (LoopStep env0 0) signalled))) = [1, 0, 0, 0]
   \<and> spawned (mgr (step (LoopStep env0 0) signalled)) = []
   \<and> passes_run 0 [LoopStep env0 0] signalled = 1"
  by code_simp

text \<open>
  C4 as amended: once \<^verbatim>\<open>GracefulTerminate("<END!>")\<close> has been processed, then after any
  further requests, loop starts and loop steps, \<^verbatim>\<open>ExecuteCommand\<close> for every agent id
  and every command returns the result with the fixed error and leaves the whole state as
  it was (no subprocess, no agent or queue item touched); the flag \<open>terminated\<close> is never
  reset; a loop that tests its condition leaves the loop with the manager unchanged (a
  loop started afterwards returns at once, whatever its fuel); and each goroutine runs the
  body of at most one further pass, so makes at most one further claim: the pass whose test
  came before the signal, and none if it was not past its test then.
\<close>

theorem after_termination_nothing_runs:
  "let sys0 = step (Request se (CallGracefulTerminate ''<END!>'')) sys;
       sys' = run evs sys0
   in ExecuteCommand e agentID command (mgr sys') =
        (\<lparr>r_AgentID = agentID, r_Command = command, r_Output = '''',
          r_Error = ''System terminated by <END!> signal'', r_ExitCode = 0, r_Duration = 0,
          r_Timestamp = ''''\<rparr>, mgr sys')
      \<and> terminated (mgr sys') \<and> \<not> running (mgr sys0)
      \<and> StartAgentLoop fuel e' loopAgent (mgr sys') = Some (mgr sys')
      \<and> (n < length (goroutines sys') \<and> snd (goroutines sys' ! n) = AtTest \<longrightarrow>
           step (LoopStep e' n) sys' =
             sys'\<lparr>goroutines := (goroutines sys')[n := (fst (goroutines sys' ! n), Exited)]\<rparr>)
      \<and> passes_run n evs sys0 \<le>
           (if n < length (goroutines sys) \<and> snd (goroutines sys ! n) = AtBody then 1 else 0)"
proof -
  define sys0 where "sys0 = step (Request se (CallGracefulTerminate ''<END!>'')) sys"
  define sys' where "sys' = run evs sys0"
  have t0: "terminated (mgr sys0)" and r0: "\<not> running (mgr sys0)"
    and g0: "goroutines sys0 = goroutines sys"
    by (simp_all add: sys0_def GracefulTerminate_def)
  from t0 have t: "terminated (mgr sys')" unfolding sys'_def by (rule terminated_run)
  have test: "step (LoopStep e' n) sys' =
             sys'\<lparr>goroutines := (goroutines sys')[n := (fst (goroutines sys' ! n), Exited)]\<rparr>"
    if "n < length (goroutines sys')" "snd (goroutines sys' ! n) = AtTest"
    using that t by (cases "goroutines sys' ! n") simp
  from passes_run_terminated [OF t0, of n evs] g0
  have p: "passes_run n evs sys0 \<le>
           (if n < length (goroutines sys) \<and> snd (goroutines sys ! n) = AtBody then 1 else 0)"
    by simp
  from t r0 test p show ?thesis
    unfolding Let_def sys0_def [symmetric] sys'_def [symmetric]
    by (simp add: ExecuteCommand_def StartAgentLoop_terminated)
qed

theorem after_termination_nothing_runs_witness:
  "ExecuteCommand env0 1 ''RUN echo hi'' (mgr (run [LoopStep env0 0] signalled)) =
     (\<lparr>r_AgentID = 1, r_Command = ''RUN echo hi'', r_Output = '''',
       r_Error = ''System terminated by <END!> signal'', r_ExitCode = 0, r_Duration = 0,
       r_Timestamp = ''''\<rparr>, mgr (run [LoopStep env0 0] signalled))
   \<and> goroutines (run [LoopStep env0 0] signalled) = [(1, AtTest), (2, AtTest)]
   \<and> goroutines (step (LoopStep env0 1) (run [LoopStep env0 0] signalled))
       = [(1, AtTest), (2, Exited)]
   \<and> mgr (step (LoopStep env0 1) (run [LoopStep env0 0] signalled))
       = mgr (run [LoopStep env0 0] signalled)
   \<and> passes_run 1 [LoopStep env0 0] signalled = 0"
proof -
  define S where "S = run [LoopStep env0 0] signalled"
  have g: "goroutines S = [(1, AtTest), (2, AtTest)]"
    unfolding S_def by code_simp
  note inst = after_termination_nothing_runs
    [where sys = two_loops and se = env0 and evs = "[LoopStep env0 0]" and e = env0
       and agentID = 1 and command = "''RUN echo hi''" and e' = env0 and n = 1
       and fuel = 0 and loopAgent = 1,
     unfolded Let_def signalled_def [symmetric] S_def [symmetric]]
  from inst have ex: "ExecuteCommand env0 1 ''RUN echo hi'' (mgr S) =
     (\<lparr>r_AgentID = 1, r_Command = ''RUN echo hi'', r_Output = '''',
       r_Error = ''System terminated by <END!> signal'', r_ExitCode = 0, r_Duration = 0,
       r_Timestamp = ''''\<rparr>, mgr S)"
    by blast
  from inst g have st: "step (LoopStep env0 1) S =
      S\<lparr>goroutines := (goroutines S)[1 := (fst (goroutines S ! 1), Exited)]\<rparr>"
    by simp
  have st1: "goroutines (step (LoopStep env0 1) S) = [(1, AtTest), (2, Exited)]"
    and st2: "mgr (step (LoopStep env0 1) S) = mgr S"
    unfolding st by (simp_all add: g)
  from inst have "passes_run 1 [LoopStep env0 0] signalled
      \<le> (if 1 < length (goroutines two_loops) \<and> snd (goroutines two_loops ! 1) = AtBody
          then 1 else 0)"
    by blast
  then have p: "passes_run 1 [LoopStep env0 0] signalled = 0"
    unfolding two_loops_eval by simp
  from ex g st1 st2 p show ?thesis unfolding S_def by blast
qed

subsection \<open>C5: the registry never holds more than \<open>maxAgents\<close> agents\<close>

text \<open>
  C5: from a state whose agent count is at most \<open>maxAgents\<close> (the new manager has no
  agents and \<open>maxAgents = 10\<close>), every sequence of calls, in particular of \<^verbatim>\<open>AddAgent\<close>
  and \<^verbatim>\<open>RemoveAgent\<close>, leads to a state whose agent count is at most \<open>maxAgents\<close>; and
  whenever the count has reached \<open>maxAgents\<close>, \<^verbatim>\<open>AddAgent\<close> returns \<^verbatim>\<open>nil\<close> and the
  state is unchanged.
\<close>

theorem agent_count_never_exceeds_maxAgents:
  assumes "int (agent_count s) \<le> maxAgents s"
  shows "int (agent_count (do_calls cs s)) \<le> maxAgents (do_calls cs s)
       \<and> maxAgents (do_calls cs s) = maxAgents s
       \<and> (maxAgents (do_calls cs s) \<le> int (agent_count (do_calls cs s)) \<longrightarrow>
            AddAgent e name (do_calls cs s) = (None, do_calls cs s))
       \<and> agent_count NewAgentManager = 0 \<and> maxAgents NewAgentManager = 10"
  using do_calls_count [OF assms, of cs] by (simp add: AddAgent_def)

theorem agent_count_never_exceeds_maxAgents_witness:
  "int (agent_count NewAgentManager) \<le> maxAgents NewAgentManager
   \<and> int (agent_count ten_agents) \<le> 10
   \<and> maxAgents ten_agents \<le> int (agent_count ten_agents)
   \<and> AddAgent env0 ''k'' ten_agents = (None, ten_agents)"
proof -
  have h: "int (agent_count NewAgentManager) \<le> maxAgents NewAgentManager" by simp
  have full: "maxAgents ten_agents \<le> int (agent_count ten_agents)"
    by (simp add: ten_agents_full)
  show ?thesis
    using h full
      agent_count_never_exceeds_maxAgents
        [OF h, where cs = "replicate 10 (env0, CallAddAgent ''a'')" and e = env0
           and name = "''k''"]
    by (simp add: ten_agents_def [symmetric])
qed

subsection \<open>C6: the id of a new agent\<close>

text \<open>
  C6 says that a successful \<^verbatim>\<open>AddAgent\<close> assigns the smallest non-negative integer not
  in use. The search starts at \<^verbatim>\<open>id := 1\<close>: on the empty registry the new agent gets id 1,
  although 0 is not in use.
\<close>

theorem AddAgent_smallest_nonnegative_counterexample:
  "fst (AddAgent env0 ''a'' NewAgentManager) = Some 0
   \<and> a_ID (heap (snd (AddAgent env0 ''a'' NewAgentManager)) 0) = 1
   \<and> 0 |\<notin>| fmdom (agents NewAgentManager)"
  by (simp add: AddAgent_def find_free_id.simps Let_def)

text \<open>
  C6 as amended: below capacity, \<^verbatim>\<open>AddAgent\<close> succeeds and gives the new agent the
  smallest integer from 1 upwards that no agent in the registry has (so an id freed by
  \<^verbatim>\<open>RemoveAgent\<close> is used again), with status idle, an empty current task and the name
  given.
\<close>

theorem AddAgent_assigns_smallest_positive_id:
  assumes "int (agent_count s) < maxAgents s"
  shows "\<exists>aid p s'. AddAgent e name s = (Some p, s')
           \<and> fmlookup (agents s') aid = Some p
           \<and> a_ID (heap s' p) = aid
           \<and> 1 \<le> aid \<and> aid |\<notin>| fmdom (agents s)
           \<and> (\<forall>k. 1 \<le> k \<and> k < aid \<longrightarrow> k |\<in>| fmdom (agents s))
           \<and> a_Status (heap s' p) = ''idle'' \<and> a_CurrentTask (heap s' p) = ''''
           \<and> a_Name (heap s' p) = name"
  using assms find_free_id_ge [of 1 "agents s"] find_free_id_free [of "agents s" 1]
    find_free_id_below [of 1 _ "agents s"]
  by (simp add: AddAgent_def Let_def)

theorem AddAgent_assigns_smallest_positive_id_witness:
  "int (agent_count one_left) < maxAgents one_left
   \<and> fst (AddAgent env0 ''c'' one_left) = Some 2
   \<and> a_ID (heap (snd (AddAgent env0 ''c'' one_left)) 2) = 1
   \<and> (\<exists>aid p s'. AddAgent env0 ''c'' one_left = (Some p, s')
           \<and> fmlookup (agents s') aid = Some p
           \<and> a_ID (heap s' p) = aid
           \<and> 1 \<le> aid \<and> aid |\<notin>| fmdom (agents one_left)
           \<and> (\<forall>k. 1 \<le> k \<and> k < aid \<longrightarrow> k |\<in>| fmdom (agents one_left))
           \<and> a_Status (heap s' p) = ''idle'' \<and> a_CurrentTask (heap s' p) = ''''
           \<and> a_Name (heap s' p) = ''c'')"
proof -
  have h: "int (agent_count one_left) < maxAgents one_left" by (simp add: one_left_fields)
  have "fst (AddAgent env0 ''c'' one_left) = Some 2
      \<and> a_ID (heap (snd (AddAgent env0 ''c'' one_left)) 2) = 1"
    by (simp add: AddAgent_def one_left_fields one_left_agents find_free_id.simps Let_def)
  with h AddAgent_assigns_smallest_positive_id [OF h, of env0 "''c''"] show ?thesis by blast
qed

subsection \<open>C7: what the list queries return\<close>

text \<open>
  C7 says that \<^verbatim>\<open>GetAgents\<close> and \<^verbatim>\<open>GetQueueList\<close> return copies that later changes
  do not reach. \<^verbatim>\<open>GetAgents\<close> copies the pointers, not the agents: after
  \<^verbatim>\<open>ExecuteCommand\<close> for agent 2, the agent that the list returned before points to has
  one more task done. \<^verbatim>\<open>GetQueueList\<close> returns \<^verbatim>\<open>am.queue\<close> itself: after a claim,
  the first item of the list returned before reads \<^verbatim>\<open>running\<close>.
\<close>

theorem snapshot_counterexample:
  "GetAgents [2] one_left = [1]
   \<and> a_TasksDone (heap one_left 1) = 0
   \<and> a_TasksDone (heap (snd (ExecuteCommand env0 2 ''RUN ls'' one_left)) 1) = 1
   \<and> map q_Status (slice_items (arrays four_items_store) (GetQueueList four_items_store))
       = [''pending'', ''pending'', ''pending'', ''pending'']
   \<and> map q_Status (slice_items (arrays (snd (GetNextQueueItem_mem four_items_store)))
                      (GetQueueList four_items_store))
       = [''running'', ''pending'', ''pending'', ''pending'']"
  by code_simp

text \<open>
  C7 as amended: \<^verbatim>\<open>GetAgents\<close> returns a new list of the registry's pointers to its
  agents. A later \<^verbatim>\<open>AddAgent\<close> or \<^verbatim>\<open>RemoveAgent\<close> changes neither that list nor the
  agents it points to; but the agents are the registry's own objects, so an update of an
  agent through the registry (here by \<^verbatim>\<open>ExecuteCommand\<close>, which counts the task) shows
  through the list, and an update through the list shows in the registry.
  \<^verbatim>\<open>GetQueueList\<close> returns the queue's slice header, which shares the backing array with
  the queue: read after a claim, the list returned before has the claimed item's status
  set to running.
\<close>

theorem snapshots_share_storage:
  "(refs_allocated s \<longrightarrow>
      map (heap (snd (AddAgent e name s))) (GetAgents visit s) = map (heap s) (GetAgents visit s)
    \<and> map (heap (snd (RemoveAgent aid s))) (GetAgents visit s) = map (heap s) (GetAgents visit s))
   \<and> (fmlookup (agents s) aid = Some p \<and> aid \<in> set visit \<and> \<not> terminated s \<longrightarrow>
        p \<in> set (GetAgents visit s)
      \<and> a_TasksDone (heap (snd (ExecuteCommand e aid command s)) p)
           + a_TasksFailed (heap (snd (ExecuteCommand e aid command s)) p)
         = a_TasksDone (heap s p) + a_TasksFailed (heap s p) + 1)
   \<and> GetQueueList st = am_queue st
   \<and> GetQueueList (snd (GetNextQueueItem_mem st)) = GetQueueList st
   \<and> slice_items (arrays (snd (GetNextQueueItem_mem st))) (GetQueueList st) =
       (case fst (GetNextQueueItem_mem st) of
          None \<Rightarrow> slice_items (arrays st) (GetQueueList st)
        | Some (a, i) \<Rightarrow>
            (slice_items (arrays st) (GetQueueList st))
              [i := (slice_items (arrays st) (GetQueueList st) ! i)\<lparr>q_Status := ''running''\<rparr>])"
proof -
  have 1: "map (heap (snd (AddAgent e name s))) (GetAgents visit s) = map (heap s) (GetAgents visit s)"
    if "refs_allocated s"
  proof (rule map_cong [OF refl])
    fix p assume "p \<in> set (GetAgents visit s)"
    with GetAgents_subset [of visit s] that have "p < next_ref s"
      by (auto simp: refs_allocated_def)
    then show "heap (snd (AddAgent e name s)) p = heap s p" by (rule heap_AddAgent)
  qed
  have 2: "am_queue (snd (GetNextQueueItem_mem st)) = am_queue st"
    by (simp add: GetNextQueueItem_mem_def Let_def split: option.splits)
  have 3: "p \<in> set (GetAgents visit s)
      \<and> a_TasksDone (heap (snd (ExecuteCommand e aid command s)) p)
           + a_TasksFailed (heap (snd (ExecuteCommand e aid command s)) p)
         = a_TasksDone (heap s p) + a_TasksFailed (heap s p) + 1"
    if "fmlookup (agents s) aid = Some p" "aid \<in> set visit" "\<not> terminated s"
    using that GetAgents_member [of s aid p visit] ExecuteCommand_counts [of s aid p e command]
    by simp
  show ?thesis
    unfolding GetQueueList_def
    using 1 2 3 GetNextQueueItem_mem_visible [of st]
    by (simp add: heap_RemoveAgent)
qed

theorem snapshots_share_storage_witness:
  "refs_allocated one_left
   \<and> fmlookup (agents one_left) 2 = Some 1 \<and> 2 \<in> set [2, 1] \<and> \<not> terminated one_left
   \<and> GetAgents [2, 1] one_left = [1]
   \<and> map (heap (snd (AddAgent env0 ''c'' one_left))) (GetAgents [2, 1] one_left)
       = map (heap one_left) (GetAgents [2, 1] one_left)
   \<and> a_TasksDone (heap (snd (ExecuteCommand env0 2 ''RUN ls'' one_left)) 1)
           + a_TasksFailed (heap (snd (ExecuteCommand env0 2 ''RUN ls'' one_left)) 1)
         = a_TasksDone (heap one_left 1) + a_TasksFailed (heap one_left 1) + 1
   \<and> fst (GetNextQueueItem_mem four_items_store) = Some (0, 0)
   \<and> slice_items (arrays (snd (GetNextQueueItem_mem four_items_store)))
        (GetQueueList four_items_store)
       = (queue four_items)[0 := (queue four_items ! 0)\<lparr>q_Status := ''running''\<rparr>]"
proof -
  have h1: "refs_allocated one_left" by (rule refs_allocated_one_left)
  have h2: "fmlookup (agents one_left) 2 = Some 1 \<and> 2 \<in> set [2, 1::int] \<and> \<not> terminated one_left"
    by (simp add: one_left_fields)
  have g: "GetAgents [2, 1] one_left = [1]"
    by (simp add: GetAgents_def List.map_filter_simps one_left_fields)
  have q: "slice_items (arrays four_items_store) (GetQueueList four_items_store)
         = queue four_items"
    using arg_cong [OF four_items_queue(1), of length]
    by (simp add: four_items_store_def slice_items_def GetQueueList_def)
  have c: "fst (GetNextQueueItem_mem four_items_store) = Some (0, 0)"
    by code_simp
  show ?thesis
    using h1 h2 g c
      snapshots_share_storage [where s = one_left and e = env0 and name = "''c''"
        and visit = "[2, 1]" and aid = 2 and p = 1 and command = "''RUN ls''"
        and st = four_items_store]
    unfolding q
    by (simp add: GetQueueList_def)
qed

subsection \<open>C8: removing twice, removing what is not there\<close>

text \<open>
  C8: for an id present in the registry, \<^verbatim>\<open>RemoveAgent\<close> returns true and a second
  \<^verbatim>\<open>RemoveAgent\<close> of the same id returns false; for an index that no queue item has,
  \<^verbatim>\<open>RemoveFromQueue\<close> returns false and the state, the queue with it, is unchanged.
\<close>

theorem remove_twice_and_remove_absent:
  "(fmlookup (agents s) aid \<noteq> None \<longrightarrow>
      fst (RemoveAgent aid s) \<and> \<not> fst (RemoveAgent aid (snd (RemoveAgent aid s))))
   \<and> (index \<notin> q_Index ` set (queue s) \<longrightarrow> RemoveFromQueue index s = (False, s))"
proof -
  have "first_index (\<lambda>item. q_Index item = index) (queue s) = None"
    if "index \<notin> q_Index ` set (queue s)"
    using that by (auto simp: first_index_None)
  then show ?thesis
    by (auto simp: RemoveAgent_def RemoveFromQueue_def split: option.splits)
qed

theorem remove_twice_and_remove_absent_witness:
  "fmlookup (agents one_left) 2 \<noteq> None
   \<and> fst (RemoveAgent 2 one_left) \<and> \<not> fst (RemoveAgent 2 (snd (RemoveAgent 2 one_left)))
   \<and> 9 \<notin> q_Index ` set (queue four_items)
   \<and> RemoveFromQueue 9 four_items = (False, four_items)"
proof -
  have h1: "fmlookup (agents one_left) 2 \<noteq> None" by (simp add: one_left_fields)
  have "q_Index ` set (queue four_items) = set (map q_Index (queue four_items))" by simp
  then have h2: "9 \<notin> q_Index ` set (queue four_items)"
    unfolding four_items_queue by simp
  show ?thesis
    using h1 h2 remove_twice_and_remove_absent [of one_left 2 9]
      remove_twice_and_remove_absent [of four_items 2 9]
    by blast
qed

subsection \<open>C9: which entries of a command map are enqueued\<close>

text \<open>
  C9 says that exactly the entries under the keys \<^verbatim>\<open>"1"\<close>, ..., up to the size of the map
  are enqueued, in that order, and concludes that a map with a gap in its slot numbering
  enqueues only the commands before the gap. The first part holds; the conclusion holds
  for the keys \<^verbatim>\<open>"1"\<close> and \<^verbatim>\<open>"3"\<close> but not in general: with the keys \<^verbatim>\<open>"1"\<close>, \<^verbatim>\<open>"3"\<close>
  and \<^verbatim>\<open>"4"\<close> the size is 3, so the command under \<^verbatim>\<open>"3"\<close>, after the gap, is enqueued
  too.
\<close>

theorem AddToQueue_gap_counterexample:
  "fmlookup gap_map ''2'' = None
   \<and> map q_Command (queue (AddToQueue env0 gap_map NewAgentManager)) = [''RUN a'', ''RUN c'']"
  by code_simp

text \<open>
  C9 as amended: \<^verbatim>\<open>AddToQueue\<close> keeps the queue it finds and appends, for \<open>i\<close> from 1 to
  the size of the map in increasing order, the command under the key that is the decimal
  string of \<open>i\<close>, when there is one, with index (old length + \<open>i\<close>), status pending and
  priority 0; entries under any other key are dropped. So a map with a gap loses the
  entries whose slot number exceeds its size: keys \<^verbatim>\<open>"1"\<close> and \<^verbatim>\<open>"3"\<close> enqueue only the
  first command.
\<close>

theorem AddToQueue_enqueues_numbered_slots:
  "let n = fcard (fmdom commands);
       added = drop (length (queue s)) (queue (AddToQueue e commands s))
   in take (length (queue s)) (queue (AddToQueue e commands s)) = queue s
    \<and> map q_Command added = List.map_filter (\<lambda>i. fmlookup commands (decimal i)) [1..<Suc n]
    \<and> map q_Index added =
        List.map_filter (\<lambda>i. map_option (\<lambda>cmd. int (length (queue s)) + int i)
                                 (fmlookup commands (decimal i))) [1..<Suc n]
    \<and> (\<forall>item \<in> set added. q_Status item = ''pending'' \<and> q_Priority item = 0)"
proof -
  have "\<forall>item \<in> set (drop (length (queue s)) (queue (AddToQueue e commands s))).
          q_Status item = ''pending'' \<and> q_Priority item = 0"
    by (auto simp: AddToQueue_queue List.map_filter_def)
  then show ?thesis
    by (simp add: Let_def AddToQueue_queue map_filter_map_option option.map_ident)
qed

theorem AddToQueue_enqueues_numbered_slots_witness:
  "map q_Command (drop (length (queue four_items))
      (queue (AddToQueue env0 short_gap_map four_items))) = [''RUN a'']
   \<and> map q_Index (drop (length (queue four_items))
      (queue (AddToQueue env0 short_gap_map four_items))) = [5]
   \<and> map q_Status (drop (length (queue four_items))
      (queue (AddToQueue env0 short_gap_map four_items))) = [''pending'']"
proof -
  have len: "length (queue four_items) = 4"
    using arg_cong [OF four_items_queue(1), of length] by simp
  have ev: "List.map_filter (\<lambda>i. fmlookup short_gap_map (decimal i)) [1..<Suc 2] = [''RUN a'']"
    "List.map_filter (\<lambda>i. map_option (\<lambda>cmd. int 4 + int i)
        (fmlookup short_gap_map (decimal i))) [1..<Suc 2] = [5]"
    by code_simp+
  note inst = AddToQueue_enqueues_numbered_slots
      [where s = four_items and e = env0 and commands = short_gap_map,
       unfolded Let_def gap_map_size len ev]
  define added where "added = drop 4 (queue (AddToQueue env0 short_gap_map four_items))"
  from inst have a: "map q_Command added = [''RUN a'']" and b: "map q_Index added = [5]"
    and c: "\<forall>item \<in> set added. q_Status item = ''pending'' \<and> q_Priority item = 0"
    unfolding added_def by blast+
  from a obtain x where "added = [x]" by (auto simp: map_eq_Cons_conv)
  with c have "map q_Status added = [''pending'']" by simp
  with a b show ?thesis unfolding len added_def by simp
qed

subsection \<open>C10: executing for an agent id that is not in the registry\<close>

text \<open>
  C10: when the system is not terminated and the agent id is not in the registry,
  \<^verbatim>\<open>ExecuteCommand\<close> still hands the command (without its \<^verbatim>\<open>"RUN "\<close> prefix, if it has
  one) to the shell and returns the result read from the subprocess; the state changes
  only in that one more subprocess has been spawned, so the registry and every Agent
  object are as before.
\<close>

theorem ExecuteCommand_unknown_agent:
  assumes "fmlookup (agents s) agentID = None" and "\<not> terminated s"
  shows "let actualCommand = TrimPrefix command ''RUN '';
             result = \<lparr>r_AgentID = agentID, r_Command = command, r_Output = '''',
                       r_Error = '''', r_ExitCode = 0, r_Duration = 0,
                       r_Timestamp = now_text e\<rparr>
         in ExecuteCommand e agentID command s =
              (read_outcome (shell e actualCommand) result,
               s\<lparr>spawned := spawned s @ [actualCommand]\<rparr>)"
  using assms
  by (cases "HasPrefix command ''RUN ''")
    (simp_all add: ExecuteCommand_def validateCommand_def TrimPrefix_no_prefix
      spawn_and_settle_def mark_running_def mark_idle_def Let_def)

theorem ExecuteCommand_unknown_agent_witness:
  "fmlookup (agents one_left) 7 = None \<and> \<not> terminated one_left
   \<and> ExecuteCommand env0 7 ''RUN ls'' one_left =
       (\<lparr>r_AgentID = 7, r_Command = ''RUN ls'', r_Output = ''ls'', r_Error = '''',
         r_ExitCode = 0, r_Duration = 0, r_Timestamp = ''1970-01-01T00:00:00Z''\<rparr>,
        one_left\<lparr>spawned := spawned one_left @ [''ls'']\<rparr>)"
proof -
  have h1: "fmlookup (agents one_left) 7 = None" by (simp add: one_left_agents)
  have h2: "\<not> terminated one_left" by (simp add: one_left_fields)
  show ?thesis
    using h1 h2 ExecuteCommand_unknown_agent [OF h1 h2, of "''RUN ls''" env0]
    by (simp add: Let_def TrimPrefix_def HasPrefix_def read_outcome_def env0_def)
qed

end
